theory Spec2Isabelle
  imports Main "HOL-Library.Word" "HOL-Library.Monad_Syntax"
begin

unbundle bit_operations_syntax

section \<open>The native-width variant (64-bit words)\<close>

text \<open>
  The C types of the native-width program: \<open>unsigned long long\<close> is a 64-bit word,
  \<open>unsigned int\<close> a 32-bit word. Values of C type \<open>int\<close> that only count (loop
  indices, the exponent \<open>s\<close>, round and attempt counters, 0/1 results) are HOL
  integers: none of them comes near the 32-bit limit on a run that returns.
  A function that divides by its modulus argument traps when that argument is zero;
  the model returns \<open>None\<close> there, and \<open>None\<close> is also the value of a loop that
  does not return.
\<close>

type_synonym ull = "64 word"
type_synonym u32 = "32 word"

definition small_primes :: "int list" where
  "small_primes =
    [2,3,5,7,11,13,17,19,23,29,
     31,37,41,43,47,53,59,61,67,71,
     73,79,83,89,97,101,103,107,109,113,
     127,131,137,139,149,151,157,163,167,173,
     179,181,191,193,197,199]"

definition small_primes_count :: int where
  "small_primes_count = int (length small_primes)"

subsection \<open>The process-wide random source\<close>

text \<open>
  The C library's \<open>rand()\<close> is not part of the repository. Its state is modelled as
  the sequence of values it is going to return (each already cast to
  \<open>unsigned int\<close>) and the number of calls made so far. Every call returns the
  next value and advances the position.
\<close>

record prng =
  outputs :: "nat \<Rightarrow> u32"
  pos :: nat

definition rand :: "prng \<Rightarrow> u32 \<times> prng" where
  "rand g = (outputs g (pos g), g\<lparr>pos := Suc (pos g)\<rparr>)"

definition rand32 :: "prng \<Rightarrow> u32 \<times> prng" where
  "rand32 g =
    (let (x, g1) = rand g;
         r = x AND 0xFFFF;
         (y, g2) = rand g1
     in (push_bit 16 r OR (y AND 0xFFFF), g2))"

text \<open>
  In \<open>rand_ull\<close> the two calls of \<open>rand32\<close> stand in one expression; the model
  evaluates them from left to right.
\<close>

definition rand_ull :: "ull \<Rightarrow> prng \<Rightarrow> ull \<times> prng" where
  "rand_ull mx g =
    (if mx = 0 then (0, g)
     else
       let (hi, g1) = rand32 g;
           (lo, g2) = rand32 g1;
           r = push_bit 32 (ucast hi) OR ucast lo
       in (r mod mx, g2))"

subsection \<open>Modular multiplication and exponentiation\<close>

function mulmod_loop :: "ull \<Rightarrow> ull \<Rightarrow> ull \<Rightarrow> ull \<Rightarrow> ull" where
  "mulmod_loop res a b m =
    (if b = 0 then res
     else
       let res1 = (if b AND 1 \<noteq> 0
                   then (let r = res + a in if r \<ge> m then r - m else r)
                   else res);
           a1 = push_bit 1 a;
           a2 = (if a1 \<ge> m then a1 - m else a1)
       in mulmod_loop res1 a2 (drop_bit 1 b) m)"
  by pat_completeness auto

lemma unat_drop_bit_1_less:
  "b \<noteq> 0 \<Longrightarrow> unat (drop_bit (Suc 0) b) < unat (b :: 'a::len word)"
proof -
  assume "b \<noteq> 0"
  then have "unat b \<noteq> 0" by (simp add: unat_eq_zero)
  moreover have "unat (drop_bit (Suc 0) b) = drop_bit (Suc 0) (unat b)"
    by (rule unat_drop_bit_eq)
  moreover have "drop_bit (Suc 0) (unat b) = unat b div 2"
    by (simp add: drop_bit_eq_div)
  ultimately show ?thesis by simp
qed

termination mulmod_loop
  by (relation "measure (\<lambda>(res, a, b, m). unat b)") (auto simp: unat_drop_bit_1_less)

definition mulmod :: "ull \<Rightarrow> ull \<Rightarrow> ull \<Rightarrow> ull option" where
  "mulmod a b m =
    (if m = 0 then None else Some (mulmod_loop 0 (a mod m) b m mod m))"

function powmod_loop :: "ull \<Rightarrow> ull \<Rightarrow> ull \<Rightarrow> ull \<Rightarrow> ull option" where
  "powmod_loop res base e m =
    (if e = 0 then Some res
     else do {
       res1 \<leftarrow> (if e AND 1 \<noteq> 0 then mulmod res base m else Some res);
       base1 \<leftarrow> mulmod base base m;
       powmod_loop res1 base1 (drop_bit 1 e) m
     })"
  by pat_completeness auto

termination powmod_loop
  by (relation "measure (\<lambda>(res, base, e, m). unat e)") (auto simp: unat_drop_bit_1_less)

definition powmod :: "ull \<Rightarrow> ull \<Rightarrow> ull \<Rightarrow> ull option" where
  "powmod base e m =
    (if m = 0 then None else powmod_loop 1 (base mod m) e m)"

subsection \<open>The Miller-Rabin witness test\<close>

text \<open>
  The loop that strips the factors of two from \<open>n - 1\<close> does not exit when it is
  started at zero, hence the option type.
\<close>

partial_function (option) decompose :: "ull \<Rightarrow> int \<Rightarrow> (ull \<times> int) option" where
  "decompose d s =
    (if d AND 1 = 0 then decompose (drop_bit 1 d) (s + 1) else Some (d, s))"

function witness_loop :: "int \<Rightarrow> int \<Rightarrow> ull \<Rightarrow> ull \<Rightarrow> int option" where
  "witness_loop r s x n =
    (if r < s
     then do {
       x1 \<leftarrow> mulmod x x n;
       if x1 = n - 1 then Some 1 else witness_loop (r + 1) s x1 n
     }
     else Some 0)"
  by pat_completeness auto

termination witness_loop
  by (relation "measure (\<lambda>(r, s, x, n). nat (s - r))") auto

definition miller_rabin_witness :: "ull \<Rightarrow> ull \<Rightarrow> int option" where
  "miller_rabin_witness n a =
    (if n = 0 then None
     else if a mod n = 0 then Some 1
     else do {
       (d, s) \<leftarrow> decompose (n - 1) 0;
       x \<leftarrow> powmod a d n;
       if x = 1 \<or> x = n - 1 then Some 1 else witness_loop 1 s x n
     })"

subsection \<open>The small-prime stage and the multi-round drivers\<close>

text \<open>
  The loop over the table returns from the enclosing function on an exact match
  (\<open>Some 1\<close>) or on a proper multiple (\<open>Some 0\<close>); \<open>None\<close> means that the loop ran
  to its end.
\<close>

fun small_prime_check :: "int list \<Rightarrow> ull \<Rightarrow> int option" where
  "small_prime_check [] n = None"
| "small_prime_check (p # ps) n =
    (if of_int p = n then Some 1
     else if n mod of_int p = 0 then Some 0
     else small_prime_check ps n)"

function mr_rounds :: "int \<Rightarrow> int \<Rightarrow> ull \<Rightarrow> prng \<Rightarrow> (int \<times> prng) option" where
  "mr_rounds i k n g =
    (if i < k
     then
       (let (r, g1) = rand_ull (n - 3) g;
            a = 2 + r
        in do {
          pass \<leftarrow> miller_rabin_witness n a;
          if pass = 0 then Some (0, g1) else mr_rounds (i + 1) k n g1
        })
     else Some (1, g))"
  by pat_completeness auto

termination mr_rounds
  by (relation "measure (\<lambda>(i, k, n, g). nat (k - i))") auto

definition is_probable_prime :: "ull \<Rightarrow> int \<Rightarrow> prng \<Rightarrow> (int \<times> prng) option" where
  "is_probable_prime n k g =
    (if n < 2 then Some (0, g)
     else case small_prime_check small_primes n of
       Some r \<Rightarrow> Some (r, g)
     | None \<Rightarrow> mr_rounds 0 k n g)"

text \<open>
  The printing driver writes one line per round: the round number, the base and the
  verdict. The lines are collected in a list.
\<close>

type_synonym out_line = "int \<times> ull \<times> int"

function mr_rounds_print ::
  "int \<Rightarrow> int \<Rightarrow> ull \<Rightarrow> int \<Rightarrow> prng \<Rightarrow> out_line list \<Rightarrow> (int \<times> prng \<times> out_line list) option" where
  "mr_rounds_print i k n all_pass g out =
    (if i < k
     then
       (let (a, g1) = (if n > 4
                       then (let (r, g') = rand_ull (n - 3) g in (2 + r, g'))
                       else (2, g))
        in do {
          pass \<leftarrow> miller_rabin_witness n a;
          mr_rounds_print (i + 1) k n (if pass = 0 then 0 else all_pass) g1
            (out @ [(i + 1, a, pass)])
        })
     else Some (all_pass, g, out))"
  by pat_completeness auto

termination mr_rounds_print
  by (relation "measure (\<lambda>(i, k, n, all_pass, g, out). nat (k - i))") auto

definition is_probable_prime_with_print ::
  "ull \<Rightarrow> int \<Rightarrow> prng \<Rightarrow> (int \<times> prng \<times> out_line list) option" where
  "is_probable_prime_with_print n k g =
    (if n < 2 then Some (0, g, [])
     else case small_prime_check small_primes n of
       Some r \<Rightarrow> Some (r, g, [])
     | None \<Rightarrow> mr_rounds_print 0 k n 1 g [])"

subsection \<open>The candidate generator\<close>

text \<open>
  A shift of a 64-bit value by 64 or more positions is undefined in C; the model has
  no result there.
\<close>

definition gen_random_odd :: "int \<Rightarrow> prng \<Rightarrow> (ull \<times> prng) option" where
  "gen_random_odd bits g =
    (if bits < 2 then Some (3, g)
     else if bits \<ge> 64 then None
     else
       let high = push_bit (nat (bits - 1)) (1 :: ull);
           range = push_bit (nat bits) (1 :: ull) - high;
           (r0, g1) = rand_ull range g;
           r = r0 + high
       in Some (r OR 1, g1))"

section \<open>The fixed-width multi-word variant (1024 bits)\<close>

text \<open>
  A \<open>bigint1024\<close> is a structure holding an array of \<open>WORDS_COUNT\<close> 32-bit words,
  least significant word first. It is modelled as the list of these words; the C
  functions only ever see lists of length \<open>WORDS_COUNT\<close>. A function that fills an
  output structure returns the new contents. The loops that run over the words by an
  ascending index are recursions over the list, those that run by a descending index
  are recursions over the reversed list.
\<close>

definition WORDS_COUNT :: nat where
  "WORDS_COUNT = 32"

type_synonym bigint1024 = "u32 list"

definition small_primes_1024 :: "u32 list" where
  "small_primes_1024 =
    [2,3,5,7,11,13,17,19,23,29,
     31,37,41,43,47,53,59,61,67,71,
     73,79,83,89,97,101,103,107,109,113,
     127,131,137,139,149,151,157,163,167,173,
     179,181,191,193,197,199]"

definition bigint_zero :: bigint1024 where
  "bigint_zero = replicate WORDS_COUNT 0"

definition bigint_set_u32 :: "u32 \<Rightarrow> bigint1024" where
  "bigint_set_u32 v = bigint_zero[0 := v]"

fun bigint_is_zero :: "bigint1024 \<Rightarrow> bool" where
  "bigint_is_zero [] = True"
| "bigint_is_zero (w # ws) = (if w \<noteq> 0 then False else bigint_is_zero ws)"

definition bigint_is_one :: "bigint1024 \<Rightarrow> bool" where
  "bigint_is_one a = (if a ! 0 \<noteq> 1 then False else bigint_is_zero (tl a))"

definition bigint_is_even :: "bigint1024 \<Rightarrow> bool" where
  "bigint_is_even a = ((a ! 0) AND 1 = 0)"

fun compare_from_top :: "u32 list \<Rightarrow> u32 list \<Rightarrow> int" where
  "compare_from_top (x # xs) (y # ys) =
    (if x > y then 1 else if x < y then - 1 else compare_from_top xs ys)"
| "compare_from_top _ _ = 0"

definition bigint_compare :: "bigint1024 \<Rightarrow> bigint1024 \<Rightarrow> int" where
  "bigint_compare a b = compare_from_top (rev a) (rev b)"

text \<open>
  In \<open>bigint_rand\<close> the two calls of \<open>rand()\<close> stand in one expression; the model
  evaluates them from left to right.
\<close>

fun rand_words :: "nat \<Rightarrow> prng \<Rightarrow> u32 list \<times> prng" where
  "rand_words 0 g = ([], g)"
| "rand_words (Suc k) g =
    (let (x, g1) = rand g;
         (y, g2) = rand g1;
         w = push_bit 16 x XOR y;
         (ws, g3) = rand_words k g2
     in (w # ws, g3))"

definition bigint_rand :: "prng \<Rightarrow> bigint1024 \<times> prng" where
  "bigint_rand g = rand_words WORDS_COUNT g"

definition bigint_rand_odd_1024 :: "prng \<Rightarrow> bigint1024 \<times> prng" where
  "bigint_rand_odd_1024 g =
    (let (a, g1) = bigint_rand g;
         a1 = a[WORDS_COUNT - 1 := a ! (WORDS_COUNT - 1) OR 0x80000000];
         a2 = a1[0 := a1 ! 0 OR 1]
     in (a2, g1))"

fun shl_loop :: "u32 \<Rightarrow> u32 list \<Rightarrow> u32 list" where
  "shl_loop carry [] = []"
| "shl_loop carry (w # ws) = (push_bit 1 w OR carry) # shl_loop (drop_bit 31 w) ws"

definition bigint_shl_one :: "bigint1024 \<Rightarrow> bigint1024" where
  "bigint_shl_one a = shl_loop 0 a"

fun shr_loop :: "u32 \<Rightarrow> u32 list \<Rightarrow> u32 list" where
  "shr_loop carry [] = []"
| "shr_loop carry (w # ws) = (drop_bit 1 w OR push_bit 31 carry) # shr_loop (w AND 1) ws"

definition bigint_shr_one :: "bigint1024 \<Rightarrow> bigint1024" where
  "bigint_shr_one a = rev (shr_loop 0 (rev a))"

fun add_loop :: "ull \<Rightarrow> u32 list \<Rightarrow> u32 list \<Rightarrow> u32 list \<times> ull" where
  "add_loop carry (x # xs) (y # ys) =
    (let s = carry + ucast x + ucast y;
         (cs, r) = add_loop (drop_bit 32 s) xs ys
     in (ucast s # cs, r))"
| "add_loop carry _ _ = ([], carry)"

definition bigint_add :: "bigint1024 \<Rightarrow> bigint1024 \<Rightarrow> bigint1024 \<times> u32" where
  "bigint_add a b = (let (c, s) = add_loop 0 a b in (c, ucast s))"

fun sub_loop :: "ull \<Rightarrow> u32 list \<Rightarrow> u32 list \<Rightarrow> u32 list" where
  "sub_loop borrow (x # xs) (y # ys) =
    (let diff = ucast x - ucast y - borrow
     in ucast diff # sub_loop (drop_bit 32 diff AND 1) xs ys)"
| "sub_loop borrow _ _ = []"

definition bigint_sub :: "bigint1024 \<Rightarrow> bigint1024 \<Rightarrow> bigint1024" where
  "bigint_sub a b = sub_loop 0 a b"

definition bigint_gte :: "bigint1024 \<Rightarrow> bigint1024 \<Rightarrow> bool" where
  "bigint_gte a b = (bigint_compare a b \<ge> 0)"

text \<open>
  Schoolbook multiplication into a buffer \<open>temp\<close> of \<open>2 * WORDS_COUNT\<close> 64-bit
  cells; only the lower \<open>WORDS_COUNT\<close> cells are copied to the result.
\<close>

fun mul_inner :: "u32 \<Rightarrow> u32 list \<Rightarrow> nat \<Rightarrow> nat \<Rightarrow> ull \<Rightarrow> ull list \<Rightarrow> ull list \<times> ull" where
  "mul_inner ai [] i j carry temp = (temp, carry)"
| "mul_inner ai (bj # bs) i j carry temp =
    (let product64 = ucast ai * ucast bj + temp ! (i + j) + carry
     in mul_inner ai bs i (Suc j) (drop_bit 32 product64)
          (temp[i + j := product64 AND 0xFFFFFFFF]))"

fun mul_outer :: "u32 list \<Rightarrow> u32 list \<Rightarrow> nat \<Rightarrow> ull list \<Rightarrow> ull list" where
  "mul_outer [] b i temp = temp"
| "mul_outer (ai # as) b i temp =
    (let (temp1, carry) = mul_inner ai b i 0 0 temp;
         temp2 = (if i + WORDS_COUNT < WORDS_COUNT * 2
                  then temp1[i + WORDS_COUNT := carry] else temp1)
     in mul_outer as b (Suc i) temp2)"

definition bigint_mul :: "bigint1024 \<Rightarrow> bigint1024 \<Rightarrow> bigint1024" where
  "bigint_mul a b =
    map ucast (take WORDS_COUNT (mul_outer a b 0 (replicate (WORDS_COUNT * 2) 0)))"

subsection \<open>Modular multiplication and exponentiation on 1024 bits\<close>

text \<open>
  The first loop of \<open>bigint_mod_mul\<close> shifts the modulus left until it is no longer
  below the remainder; nothing bounds the number of its rounds, so it is a partial
  function. The second loop counts \<open>shift\<close> down to zero.
\<close>

partial_function (option) align_loop ::
  "bigint1024 \<Rightarrow> bigint1024 \<Rightarrow> int \<Rightarrow> (bigint1024 \<times> int) option" where
  "align_loop n_shifted rem shift =
    (if bigint_compare n_shifted rem < 0
     then align_loop (bigint_shl_one n_shifted) rem (shift + 1)
     else Some (n_shifted, shift))"

function subtract_loop :: "bigint1024 \<Rightarrow> bigint1024 \<Rightarrow> int \<Rightarrow> bigint1024" where
  "subtract_loop rem n_shifted shift =
    (if shift \<ge> 0
     then
       let rem1 = (if bigint_compare rem n_shifted \<ge> 0
                   then bigint_sub rem n_shifted else rem)
       in subtract_loop rem1 (bigint_shr_one n_shifted) (shift - 1)
     else rem)"
  by pat_completeness auto

termination subtract_loop
  by (relation "measure (\<lambda>(rem, n_shifted, shift). nat (shift + 1))") auto

definition bigint_mod_mul ::
  "bigint1024 \<Rightarrow> bigint1024 \<Rightarrow> bigint1024 \<Rightarrow> bigint1024 option" where
  "bigint_mod_mul a b n =
    (let product = bigint_mul a b
     in do {
       (n_shifted, shift) \<leftarrow> align_loop n product 0;
       Some (subtract_loop product n_shifted shift)
     })"

partial_function (option) mod_exp_loop ::
  "bigint1024 \<Rightarrow> bigint1024 \<Rightarrow> bigint1024 \<Rightarrow> bigint1024 \<Rightarrow> bigint1024 option" where
  "mod_exp_loop result b e m =
    (if \<not> bigint_is_zero e
     then do {
       result1 \<leftarrow> (if (e ! 0) AND 1 \<noteq> 0 then bigint_mod_mul result b m else Some result);
       b1 \<leftarrow> bigint_mod_mul b b m;
       mod_exp_loop result1 b1 (bigint_shr_one e) m
     }
     else Some result)"

definition bigint_mod_exp ::
  "bigint1024 \<Rightarrow> bigint1024 \<Rightarrow> bigint1024 \<Rightarrow> bigint1024 option" where
  "bigint_mod_exp base e m = mod_exp_loop (bigint_set_u32 1) base e m"

text \<open>
  Horner's rule from the top word down. The function is only called with entries of
  the table of small primes, none of which is zero.
\<close>

fun horner_rem :: "ull \<Rightarrow> u32 list \<Rightarrow> u32 \<Rightarrow> ull" where
  "horner_rem r [] p = r"
| "horner_rem r (w # ws) p = horner_rem ((push_bit 32 r OR ucast w) mod ucast p) ws p"

definition bigint_divisible_by_small_prime :: "bigint1024 \<Rightarrow> u32 \<Rightarrow> bool" where
  "bigint_divisible_by_small_prime a p = (horner_rem 0 (rev a) p = 0)"

subsection \<open>The Miller-Rabin witness test on 1024 bits\<close>

text \<open>
  Both \<open>miller_rabin_witness_1024\<close> and \<open>bigint_rand_range\<close> reduce a value by
  subtracting the modulus while the value is not below it.
\<close>

partial_function (option) subtract_while_gte ::
  "bigint1024 \<Rightarrow> bigint1024 \<Rightarrow> bigint1024 option" where
  "subtract_while_gte temp n =
    (if bigint_compare temp n \<ge> 0
     then subtract_while_gte (bigint_sub temp n) n
     else Some temp)"

partial_function (option) strip_twos ::
  "bigint1024 \<Rightarrow> int \<Rightarrow> (bigint1024 \<times> int) option" where
  "strip_twos d s =
    (if bigint_is_even d then strip_twos (bigint_shr_one d) (s + 1) else Some (d, s))"

function witness_loop_1024 ::
  "int \<Rightarrow> int \<Rightarrow> bigint1024 \<Rightarrow> bigint1024 \<Rightarrow> bigint1024 \<Rightarrow> int option" where
  "witness_loop_1024 r s x n n_minus_1 =
    (if r < s
     then do {
       x1 \<leftarrow> bigint_mod_mul x x n;
       if bigint_compare x1 n_minus_1 = 0 then Some 1
       else witness_loop_1024 (r + 1) s x1 n n_minus_1
     }
     else Some 0)"
  by pat_completeness auto

termination witness_loop_1024
  by (relation "measure (\<lambda>(r, s, x, n, n_minus_1). nat (s - r))") auto

text \<open>
  The witness test receives its base through a pointer and, when the base is not
  below the modulus, stores the reduced base through that pointer. The model returns
  the verdict together with the contents of the caller's base object after the call.
  \<open>witness_after_reduction\<close> is the part of the function that follows the reduction;
  its argument \<open>a\<close> is the contents of the base object at that point.
\<close>

definition witness_after_reduction ::
  "bigint1024 \<Rightarrow> bigint1024 \<Rightarrow> (int \<times> bigint1024) option" where
  "witness_after_reduction n a =
    (let one = bigint_set_u32 1;
         n_minus_1 = bigint_sub n one
     in do {
       (d, s) \<leftarrow> strip_twos n_minus_1 0;
       x \<leftarrow> bigint_mod_exp a d n;
       if bigint_is_one x \<or> bigint_compare x n_minus_1 = 0 then Some (1, a)
       else do {
         r \<leftarrow> witness_loop_1024 1 s x n n_minus_1;
         Some (r, a)
       }
     })"

definition miller_rabin_witness_1024 ::
  "bigint1024 \<Rightarrow> bigint1024 \<Rightarrow> (int \<times> bigint1024) option" where
  "miller_rabin_witness_1024 n a =
    (if bigint_compare a n \<ge> 0
     then do {
       temp \<leftarrow> subtract_while_gte a n;
       if bigint_is_zero temp then Some (1, a)
       else witness_after_reduction n temp
     }
     else witness_after_reduction n a)"

definition bigint_rand_range :: "bigint1024 \<Rightarrow> prng \<Rightarrow> (bigint1024 \<times> prng) option" where
  "bigint_rand_range n g =
    (let three = bigint_set_u32 3;
         n_minus_3 = bigint_sub n three;
         (a, g1) = bigint_rand g
     in do {
       temp \<leftarrow> subtract_while_gte a n_minus_3;
       Some (fst (bigint_add temp (bigint_set_u32 2)), g1)
     })"

fun small_prime_check_1024 :: "u32 list \<Rightarrow> bigint1024 \<Rightarrow> int option" where
  "small_prime_check_1024 [] n = None"
| "small_prime_check_1024 (p # ps) n =
    (if bigint_divisible_by_small_prime n p
     then (if bigint_compare n (bigint_set_u32 p) = 0 then Some 1 else Some 0)
     else small_prime_check_1024 ps n)"

function mr_rounds_1024 ::
  "int \<Rightarrow> int \<Rightarrow> bigint1024 \<Rightarrow> prng \<Rightarrow> (int \<times> prng) option" where
  "mr_rounds_1024 i rounds n g =
    (if i < rounds
     then do {
       (a, g1) \<leftarrow> bigint_rand_range n g;
       (pass, a') \<leftarrow> miller_rabin_witness_1024 n a;
       if pass = 0 then Some (0, g1) else mr_rounds_1024 (i + 1) rounds n g1
     }
     else Some (1, g))"
  by pat_completeness auto

termination mr_rounds_1024
  by (relation "measure (\<lambda>(i, rounds, n, g). nat (rounds - i))") auto

definition is_probable_prime_1024 ::
  "bigint1024 \<Rightarrow> int \<Rightarrow> prng \<Rightarrow> (int \<times> prng) option" where
  "is_probable_prime_1024 n rounds g =
    (case small_prime_check_1024 small_primes_1024 n of
       Some r \<Rightarrow> Some (r, g)
     | None \<Rightarrow> mr_rounds_1024 0 rounds n g)"

text \<open>The number that a \<open>bigint1024\<close> stands for.\<close>

definition bigint_val :: "bigint1024 \<Rightarrow> nat" where
  "bigint_val a = foldr (\<lambda>w acc. unat w + 2 ^ 32 * acc) a 0"

declare decompose.simps [code]
declare align_loop.simps [code]
declare mod_exp_loop.simps [code]
declare subtract_while_gte.simps [code]
declare strip_twos.simps [code]

text \<open>
  The recursion equations of the loops are applied explicitly, never by the
  simplifier on its own.
\<close>

declare mulmod_loop.simps [simp del]
declare powmod_loop.simps [simp del]
declare witness_loop.simps [simp del]
declare mr_rounds.simps [simp del]
declare mr_rounds_print.simps [simp del]
declare subtract_loop.simps [simp del]
declare witness_loop_1024.simps [simp del]
declare mr_rounds_1024.simps [simp del]

section \<open>Properties of the native-width variant\<close>

lemma small_primes_count_value: "small_primes_count = 46"
  by (simp add: small_primes_count_def small_primes_def)

subsection \<open>Bounds of the modular layer\<close>

definition add_reduce :: "ull \<Rightarrow> ull \<Rightarrow> ull \<Rightarrow> ull" where
  "add_reduce x y m = (if x + y \<ge> m then x + y - m else x + y)"

lemma add_reduce_less: "x < m \<Longrightarrow> y < m \<Longrightarrow> add_reduce x y m < m"
  unfolding add_reduce_def by unat_arith

lemma push_bit_1_double: "push_bit 1 (a::ull) = a + a"
  by (simp add: push_bit_eq_mult)

lemma mulmod_loop_0: "mulmod_loop res a 0 m = res"
  by (subst mulmod_loop.simps) simp

lemma mulmod_loop_step:
  "b \<noteq> 0 \<Longrightarrow> mulmod_loop res a b m =
     mulmod_loop (if b AND 1 \<noteq> 0 then add_reduce res a m else res) (add_reduce a a m)
       (drop_bit 1 b) m"
  by (subst mulmod_loop.simps) (simp only: Let_def add_reduce_def push_bit_1_double if_False)

lemma mulmod_loop_less:
  "res < m \<Longrightarrow> a < m \<Longrightarrow> mulmod_loop res a b m < m"
proof (induction "unat b" arbitrary: res a b rule: less_induct)
  case less
  show ?case
  proof (cases "b = 0")
    case True
    with less.prems show ?thesis by (simp add: mulmod_loop_0)
  next
    case False
    have r: "(if b AND 1 \<noteq> 0 then add_reduce res a m else res) < m"
      using add_reduce_less[OF less.prems] less.prems by simp
    have a: "add_reduce a a m < m"
      by (rule add_reduce_less[OF less.prems(2) less.prems(2)])
    have "unat (drop_bit 1 b) < unat b"
      using unat_drop_bit_1_less[OF False] by simp
    from less.hyps[OF this r a] show ?thesis
      by (simp only: mulmod_loop_step[OF False])
  qed
qed

lemma word_mod_less: "m \<noteq> 0 \<Longrightarrow> a mod m < (m :: ull)"
  by (simp add: word_mod_less_divisor word_neq_0_conv)

lemma mulmod_returns_less:
  "m \<noteq> 0 \<Longrightarrow> \<exists>r. mulmod a b m = Some r \<and> r < m"
  by (simp add: mulmod_def word_mod_less)

lemma powmod_loop_0: "powmod_loop res base 0 m = Some res"
  by (subst powmod_loop.simps) simp

lemma powmod_loop_step:
  "e \<noteq> 0 \<Longrightarrow> powmod_loop res base e m =
     (if e AND 1 \<noteq> 0 then mulmod res base m else Some res) \<bind>
       (\<lambda>res1. mulmod base base m \<bind> (\<lambda>base1. powmod_loop res1 base1 (drop_bit 1 e) m))"
  by (subst powmod_loop.simps) (simp only: if_False)

lemma powmod_loop_returns_less:
  "m \<noteq> 0 \<Longrightarrow> res < m \<Longrightarrow> \<exists>r. powmod_loop res base e m = Some r \<and> r < m"
proof (induction "unat e" arbitrary: res base e rule: less_induct)
  case less
  show ?case
  proof (cases "e = 0")
    case True
    with less.prems show ?thesis by (simp add: powmod_loop_0)
  next
    case False
    obtain res1 where r1: "(if e AND 1 \<noteq> 0 then mulmod res base m else Some res) = Some res1"
      and l1: "res1 < m"
      using mulmod_returns_less[OF less.prems(1), of res base] less.prems(2)
      by (cases "e AND 1 \<noteq> 0") auto
    obtain base1 where b1: "mulmod base base m = Some base1"
      using mulmod_returns_less[OF less.prems(1), of base base] by auto
    have "unat (drop_bit 1 e) < unat e"
      using unat_drop_bit_1_less[OF False] by simp
    from less.hyps[OF this less.prems(1) l1, of base1]
    show ?thesis
      by (simp add: powmod_loop_step[OF False] r1 b1)
  qed
qed

lemma powmod_returns_less:
  assumes "1 < m"
  shows "\<exists>r. powmod base e m = Some r \<and> r < m"
proof -
  from assms have "m \<noteq> 0" by auto
  with powmod_loop_returns_less[OF this assms] show ?thesis
    by (simp add: powmod_def)
qed

subsection \<open>The small-prime stage on the entries of its own table\<close>

lemma small_prime_check_table:
  "list_all (\<lambda>p. small_prime_check small_primes (of_int p) = Some 1) small_primes"
  by code_simp

text \<open>
  On a one-word number the 1024-bit small-prime stage does what the following
  function does on the word itself.
\<close>

fun small_prime_check_u32 :: "u32 list \<Rightarrow> u32 \<Rightarrow> int option" where
  "small_prime_check_u32 [] p = None"
| "small_prime_check_u32 (q # qs) p =
    (if (ucast p :: ull) mod ucast q = 0
     then (if p = q then Some 1 else Some 0)
     else small_prime_check_u32 qs p)"

lemma horner_rem_zeros: "horner_rem 0 (replicate k 0 @ ws) q = horner_rem 0 ws q"
  by (induction k) simp_all

lemma rev_bigint_set_u32: "rev (bigint_set_u32 p) = replicate (WORDS_COUNT - 1) 0 @ [p]"
  by (simp add: bigint_set_u32_def bigint_zero_def WORDS_COUNT_def numeral_eq_Suc)

lemma divisible_set_u32:
  "bigint_divisible_by_small_prime (bigint_set_u32 p) q = ((ucast p :: ull) mod ucast q = 0)"
  by (simp add: bigint_divisible_by_small_prime_def rev_bigint_set_u32 horner_rem_zeros)

lemma compare_from_top_zeros:
  "compare_from_top (replicate k 0 @ xs) (replicate k 0 @ ys) = compare_from_top xs ys"
  by (induction k) simp_all

lemma compare_set_u32:
  "bigint_compare (bigint_set_u32 p) (bigint_set_u32 q) =
     (if p > q then 1 else if p < q then - 1 else 0)"
  by (simp add: bigint_compare_def rev_bigint_set_u32 compare_from_top_zeros)

lemma small_prime_check_1024_set_u32:
  "small_prime_check_1024 qs (bigint_set_u32 p) = small_prime_check_u32 qs p"
  by (induction qs) (auto simp: divisible_set_u32 compare_set_u32)

lemma small_prime_check_u32_table:
  "list_all (\<lambda>p. small_prime_check_u32 small_primes_1024 p = Some 1) small_primes_1024"
  by code_simp

text \<open>
  Claim C5. For every entry \<open>p\<close> of the table of primes below 200, the small-prime
  stage reports an exact match (the value 1, not the rejection value 0), so that the
  primality predicate returns "prime" for \<open>p\<close> without drawing a single random
  base. This holds for the native-width predicate, for its printing variant and for
  the 1024-bit predicate.
\<close>

theorem sieve_exact_match:
  "(\<forall>p \<in> set small_primes. \<forall>k g.
      small_prime_check small_primes (of_int p) = Some 1 \<and>
      is_probable_prime (of_int p) k g = Some (1, g) \<and>
      is_probable_prime_with_print (of_int p) k g = Some (1, g, [])) \<and>
   (\<forall>p \<in> set small_primes_1024. \<forall>rounds g.
      small_prime_check_1024 small_primes_1024 (bigint_set_u32 p) = Some 1 \<and>
      is_probable_prime_1024 (bigint_set_u32 p) rounds g = Some (1, g))"
proof (intro conjI ballI allI)
  fix p k g
  assume p: "p \<in> set small_primes"
  then show c: "small_prime_check small_primes (of_int p) = Some 1"
    using small_prime_check_table by (simp add: list_all_iff)
  from p have "2 \<le> p \<and> p \<le> 199"
    by (auto simp: small_primes_def)
  then have n: "\<not> (of_int p :: ull) < 2"
    by (simp add: word_less_def uint_word_of_int)
  from c n show "is_probable_prime (of_int p) k g = Some (1, g)"
    by (simp add: is_probable_prime_def)
  from c n show "is_probable_prime_with_print (of_int p) k g = Some (1, g, [])"
    by (simp add: is_probable_prime_with_print_def)
next
  fix p rounds g
  assume "p \<in> set small_primes_1024"
  then have "small_prime_check_u32 small_primes_1024 p = Some 1"
    using small_prime_check_u32_table by (simp add: list_all_iff)
  then show c: "small_prime_check_1024 small_primes_1024 (bigint_set_u32 p) = Some 1"
    by (simp add: small_prime_check_1024_set_u32)
  then show "is_probable_prime_1024 (bigint_set_u32 p) rounds g = Some (1, g)"
    by (simp add: is_probable_prime_1024_def)
qed

theorem sieve_exact_match_witness:
  "197 \<in> set small_primes \<and>
   is_probable_prime 197 10 \<lparr>outputs = (\<lambda>i. 0), pos = 0\<rparr>
       = Some (1, \<lparr>outputs = (\<lambda>i. 0), pos = 0\<rparr>) \<and>
   197 \<in> set small_primes_1024 \<and>
   is_probable_prime_1024 (bigint_set_u32 197) 10 \<lparr>outputs = (\<lambda>i. 0), pos = 0\<rparr>
       = Some (1, \<lparr>outputs = (\<lambda>i. 0), pos = 0\<rparr>)"
proof -
  have a: "(197::int) \<in> set small_primes" by (simp add: small_primes_def)
  have b: "(197::u32) \<in> set small_primes_1024" by (simp add: small_primes_1024_def)
  from sieve_exact_match a b show ?thesis by fastforce
qed

section \<open>The arithmetic of the fixed-width variant\<close>

subsection \<open>Single words\<close>

lemma mod_mult_split_int:
  fixes lo k B P :: int
  assumes "0 \<le> lo" "lo < B" "0 < P"
  shows "(lo + B * k) mod (B * P) = lo + B * (k mod P)"
proof -
  have B: "0 < B" using assms by simp
  have "lo + B * k = (lo + B * (k mod P)) + (k div P) * (B * P)"
    by (simp add: algebra_simps flip: distrib_left)
  then have "(lo + B * k) mod (B * P) = (lo + B * (k mod P)) mod (B * P)"
    by (simp only: mod_mult_self1)
  also have "\<dots> = lo + B * (k mod P)"
  proof (rule mod_pos_pos_trivial)
    show "0 \<le> lo + B * (k mod P)" using assms B by simp
    have "k mod P \<le> P - 1" using assms(3) by (simp add: pos_mod_bound zle_diff1_eq)
    then have "B * (k mod P) \<le> B * (P - 1)" using B by (simp add: mult_left_mono)
    then show "lo + B * (k mod P) < B * P" using assms(2) by (simp add: algebra_simps)
  qed
  finally show ?thesis .
qed

lemma mod_mult_split_nat:
  fixes lo k B P :: nat
  assumes "lo < B" "0 < P"
  shows "(lo + B * k) mod (B * P) = lo + B * (k mod P)"
proof -
  have "int ((lo + B * k) mod (B * P)) = (int lo + int B * int k) mod (int B * int P)"
    by (simp add: zmod_int)
  also have "\<dots> = int lo + int B * (int k mod int P)"
    using assms by (intro mod_mult_split_int) simp_all
  also have "\<dots> = int (lo + B * (k mod P))"
    by (simp add: zmod_int)
  finally show ?thesis by (simp only: int_int_eq)
qed

lemma word_le_1_cases: "(c :: 'a::len word) \<le> 1 \<Longrightarrow> c = 0 \<or> c = 1"
proof -
  assume "c \<le> 1"
  then have "unat c \<le> 1" by (simp add: word_le_nat_alt)
  then have "unat c = 0 \<or> unat c = 1" by linarith
  then show ?thesis by (auto simp: word_unat_eq_iff)
qed

lemma unat_drop_bit_div: "unat (drop_bit n w) = unat w div 2 ^ n"
proof -
  have "unat (drop_bit n w) = drop_bit n (unat w)" by (rule unat_drop_bit_eq)
  also have "\<dots> = unat w div 2 ^ n" by (rule drop_bit_eq_div)
  finally show ?thesis .
qed

lemma unat_u32_less: "unat (w :: 32 word) < 2 ^ 32"
  using unsigned_less[of w] by simp

lemma unat_ucast_u32_ull: "unat (ucast (x :: u32) :: 64 word) = unat x"
proof -
  have "unat (ucast x :: 64 word) = take_bit LENGTH(64) (unat x)"
    by (rule unsigned_ucast_eq)
  also have "\<dots> = unat x"
    using unat_u32_less[of x] by (simp add: take_bit_eq_mod)
  finally show ?thesis .
qed

lemma unat_add_no_overflow:
  fixes x y :: "'a::len word"
  shows "unat x + unat y < 2 ^ LENGTH('a) \<Longrightarrow> unat (x + y) = unat x + unat y"
  by (rule unat_add_lem[THEN iffD1])

lemma shl_limb:
  fixes w c :: "32 word"
  assumes "c \<le> 1"
  shows "2 * unat w + unat c = unat (push_bit 1 w OR c) + 2 ^ 32 * unat (drop_bit 31 w)"
    and "drop_bit 31 w \<le> 1"
proof -
  have hi: "unat (drop_bit 31 w) = unat w div 2 ^ 31"
    by (rule unat_drop_bit_div)
  have lt: "unat w < 2 ^ 32" using unsigned_less[of w] by simp
  then have "unat w div 2 ^ 31 \<le> 1" by simp
  then show "drop_bit 31 w \<le> 1"
    unfolding word_le_nat_alt hi by simp
  have pb: "unat (push_bit 1 w) = (2 * unat w) mod 2 ^ 32"
  proof -
    have "unat (push_bit 1 w) = unat (w * 2 ^ 1)"
      by (simp only: push_bit_eq_mult)
    also have "\<dots> = unat w * unat (2 ^ 1 :: 32 word) mod 2 ^ LENGTH(32)"
      by (rule unat_word_ariths(2))
    also have "\<dots> = (2 * unat w) mod 2 ^ 32"
      by (simp add: mult.commute)
    finally show ?thesis .
  qed
  have "even (push_bit 1 w)"
    by (rule iffD2[OF even_push_bit_iff]) simp
  then have "push_bit 1 w mod 2 = 0"
    by (simp only: even_iff_mod_2_eq_zero)
  then have "push_bit 1 w AND 1 = 0"
    by (simp only: and_one_eq)
  then have disj: "push_bit 1 w AND c = 0"
    using word_le_1_cases[OF assms] by auto
  then have e1: "push_bit 1 w OR c = push_bit 1 w + c"
    by (rule disjunctive_add_eq_or[symmetric])
  have e2: "unat (push_bit 1 w + c) = unat (push_bit 1 w) + unat c"
  proof -
    have "unat c \<le> 1" using assms by (simp add: word_le_nat_alt)
    moreover have "(2 * unat w) mod 2 ^ 32 \<le> 2 ^ 32 - 2"
    proof -
      have "(2 * unat w) mod 2 ^ 32 = 2 * (unat w mod 2 ^ 31)"
        using mult_mod_right[of 2 "unat w" "2 ^ 31"] by simp
      moreover have "unat w mod 2 ^ 31 < 2 ^ 31" by simp
      ultimately show ?thesis by simp
    qed
    ultimately have "unat (push_bit 1 w) + unat c < 2 ^ 32" unfolding pb by simp
    then show ?thesis by (intro unat_add_no_overflow) simp
  qed
  have "2 * unat w = (2 * unat w) mod 2 ^ 32 + 2 ^ 32 * (unat w div 2 ^ 31)"
  proof -
    have "(2 * unat w) div 2 ^ 32 = unat w div 2 ^ 31" by simp
    then show ?thesis using mod_mult_div_eq[of "2 * unat w" "2 ^ 32"] by simp
  qed
  then show "2 * unat w + unat c = unat (push_bit 1 w OR c) + 2 ^ 32 * unat (drop_bit 31 w)"
    unfolding e1 e2 pb hi by simp
qed

lemma shr_limb:
  fixes w c :: "32 word"
  assumes "c \<le> 1"
  shows "unat c * 2 ^ 32 + unat w = 2 * unat (drop_bit 1 w OR push_bit 31 c) + unat (w AND 1)"
    and "w AND 1 \<le> 1"
proof -
  show "w AND 1 \<le> 1" by (rule word_and_le1)
  have lo: "unat (w AND 1) = unat w mod 2"
  proof -
    have "unat (w AND 1) = unat w AND unat (1 :: 32 word)" by (rule unsigned_and_eq)
    also have "\<dots> = unat w mod 2" by (simp add: and_one_eq)
    finally show ?thesis .
  qed
  have d: "unat (drop_bit 1 w) = unat w div 2"
    using unat_drop_bit_div[of 1 w] by simp
  have c: "unat c \<le> 1" using assms by (simp add: word_le_nat_alt)
  have p: "unat (push_bit 31 c) = unat c * 2 ^ 31"
  proof -
    have "unat (push_bit 31 c) = unat (c * 2 ^ 31)"
      by (simp only: push_bit_eq_mult)
    also have "\<dots> = unat c * unat (2 ^ 31 :: 32 word) mod 2 ^ LENGTH(32)"
      by (rule unat_word_ariths(2))
    also have "\<dots> = unat c * 2 ^ 31"
      using c by (cases "unat c = 0") auto
    finally show ?thesis .
  qed
  have "drop_bit 1 w AND push_bit 31 c = 0"
  proof (rule bit_eqI)
    fix n
    show "bit (drop_bit 1 w AND push_bit 31 c) n \<longleftrightarrow> bit (0 :: 32 word) n"
      using word_le_1_cases[OF assms]
      by (auto simp: bit_simps dest: bit_imp_le_length)
  qed
  then have e1: "drop_bit 1 w OR push_bit 31 c = drop_bit 1 w + push_bit 31 c"
    by (rule disjunctive_add_eq_or[symmetric])
  have e2: "unat (drop_bit 1 w + push_bit 31 c) = unat (drop_bit 1 w) + unat (push_bit 31 c)"
  proof -
    have "unat w div 2 < 2 ^ 31" using unat_u32_less[of w] by simp
    then have "unat (drop_bit 1 w) + unat (push_bit 31 c) < 2 ^ 32"
      unfolding d p using c by simp
    then show ?thesis by (intro unat_add_no_overflow) simp
  qed
  show "unat c * 2 ^ 32 + unat w = 2 * unat (drop_bit 1 w OR push_bit 31 c) + unat (w AND 1)"
    unfolding e1 e2 d p lo by simp
qed

lemma add_limb:
  fixes x y :: "32 word" and c :: "64 word"
  assumes "c \<le> 1"
  defines "s \<equiv> c + ucast x + ucast y"
  shows "unat c + unat x + unat y = unat (ucast s :: 32 word) + 2 ^ 32 * unat (drop_bit 32 s)"
    and "drop_bit 32 s \<le> 1"
proof -
  have c: "unat c \<le> 1" using assms(1) by (simp add: word_le_nat_alt)
  note ux = unat_ucast_u32_ull[of x]
  note uy = unat_ucast_u32_ull[of y]
  note bdx = unat_u32_less[of x]
  note bdy = unat_u32_less[of y]
  have s1: "unat (c + ucast x) = unat c + unat x"
    unfolding ux[symmetric] by (rule unat_add_no_overflow) (use c bdx in \<open>simp add: ux\<close>)
  have "unat (c + ucast x + ucast y) = unat (c + ucast x) + unat (ucast y :: 64 word)"
    by (rule unat_add_no_overflow) (use c bdx bdy in \<open>simp add: s1 uy\<close>)
  then have s: "unat s = unat c + unat x + unat y"
    unfolding s_def by (simp add: s1 uy)
  have lo: "unat (ucast s :: 32 word) = unat s mod 2 ^ 32"
    by (simp add: unsigned_ucast_eq take_bit_eq_mod)
  have hi: "unat (drop_bit 32 s) = unat s div 2 ^ 32"
    by (rule unat_drop_bit_div)
  show "unat c + unat x + unat y = unat (ucast s :: 32 word) + 2 ^ 32 * unat (drop_bit 32 s)"
    unfolding lo hi s by simp
  have "unat s div 2 ^ 32 \<le> 1" unfolding s using c bdx bdy by simp
  then show "drop_bit 32 s \<le> 1"
    unfolding word_le_nat_alt hi by simp
qed

lemma borrow_split:
  fixes t B :: int
  assumes "- B \<le> t" "t < 0" "0 < B"
  shows "t mod (B * B) mod B = t + B" and "t mod (B * B) div B = B - 1"
proof -
  define u where "u = t + B"
  have u: "0 \<le> u" "u < B" using assms by (simp_all add: u_def)
  have "u + (B - 1) * B < 1 * B + (B - 1) * B" using u by simp
  also have "\<dots> = B * B" by (simp add: algebra_simps)
  finally have lt: "u + (B - 1) * B < B * B" .
  have ge: "0 \<le> u + (B - 1) * B" using u assms by simp
  have "t mod (B * B) = (t + B * B) mod (B * B)" by simp
  also have "t + B * B = u + (B - 1) * B" by (simp add: u_def algebra_simps)
  finally have "t mod (B * B) = (u + (B - 1) * B) mod (B * B)" .
  also have "\<dots> = u + (B - 1) * B"
    using ge lt by (rule mod_pos_pos_trivial)
  finally have d: "t mod (B * B) = u + (B - 1) * B" .
  have "(u + (B - 1) * B) mod B = u mod B" by simp
  also have "\<dots> = u" using u by simp
  finally show "t mod (B * B) mod B = t + B"
    unfolding d by (simp only: u_def)
  have "(u + (B - 1) * B) div B = u div B + (B - 1)" using assms by simp
  also have "u div B = 0" using u by simp
  finally show "t mod (B * B) div B = B - 1"
    unfolding d by simp
qed

lemma sub_step_int:
  fixes x y b B :: int
  assumes "0 \<le> x" "x < B" "0 \<le> y" "y < B" "0 \<le> b" "b \<le> 1" "even B"
  shows "x - y - b =
    ((x - y - b) mod (B * B)) mod B - B * ((((x - y - b) mod (B * B)) div B) mod 2)"
proof (cases "x - y - b < 0")
  case True
  have B: "0 < B" using assms by simp
  have lo: "- B \<le> x - y - b" using assms by simp
  note bs = borrow_split[OF lo True B]
  have "(B - 1) mod 2 = 1" using assms(7) by presburger
  then show ?thesis
    unfolding bs by simp
next
  case False
  then have t: "0 \<le> x - y - b" "x - y - b < B" using assms by simp_all
  have "B * 1 \<le> B * B" using assms by (intro mult_left_mono) simp_all
  with t have "x - y - b < B * B" by linarith
  with t have "(x - y - b) mod (B * B) = x - y - b"
    by (intro mod_pos_pos_trivial)
  then show ?thesis using t by simp
qed



lemma uint_sub_limb_diff: fixes x y :: "32 word" and b :: "64 word"
  shows "uint (ucast x - ucast y - b) = (uint x - uint y - uint b) mod (2 ^ 32 * 2 ^ 32)"
  by (simp add: uint_word_ariths uint_up_ucast is_up mod_diff_left_eq)

lemma uint_ucast_ull_u32: fixes diff :: "64 word" shows "uint (ucast diff :: 32 word) = uint diff mod 2 ^ 32"
    by (simp add: unsigned_ucast_eq take_bit_eq_mod)

lemma uint_borrow_bit: fixes diff :: "64 word" shows "uint (drop_bit 32 diff AND 1) = (uint diff div 2 ^ 32) mod 2"
proof -
  have "uint (drop_bit 32 diff AND 1) = uint (drop_bit 32 diff mod 2)"
    by (simp only: and_one_eq)
  also have "\<dots> = uint (drop_bit 32 diff) mod uint (2 :: 64 word)"
    by (rule uint_mod)
  also have "\<dots> = uint (drop_bit 32 diff) mod 2" by simp
  also have "\<dots> = uint (diff div 2 ^ 32) mod 2" by (simp only: drop_bit_eq_div)
  also have "\<dots> = (uint diff div uint (2 ^ 32 :: 64 word)) mod 2" by (simp only: uint_div)
  also have "\<dots> = (uint diff div 2 ^ 32) mod 2" by simp
  finally show ?thesis .
qed

lemma sub_limb:
  fixes x y :: "32 word" and b :: "64 word"
  assumes "b \<le> 1"
  defines "diff \<equiv> ucast x - ucast y - b"
  shows "int (unat x) - int (unat y) - int (unat b) =
           int (unat (ucast diff :: 32 word)) - 2 ^ 32 * int (unat (drop_bit 32 diff AND 1))"
    and "drop_bit 32 diff AND 1 \<le> 1"
proof -
  have b: "uint b \<le> 1" using assms(1) by (simp add: word_le_def)
  have "uint x - uint y - uint b = uint (ucast diff :: 32 word) - 2 ^ 32 * uint (drop_bit 32 diff AND 1)"
    unfolding uint_ucast_ull_u32 uint_borrow_bit diff_def uint_sub_limb_diff
    by (rule sub_step_int) (use b uint_lt2p[of x] uint_lt2p[of y] in simp_all)
  then show "int (unat x) - int (unat y) - int (unat b) =
           int (unat (ucast diff :: 32 word)) - 2 ^ 32 * int (unat (drop_bit 32 diff AND 1))"
    by (simp only: uint_nat)
  show "drop_bit 32 diff AND 1 \<le> 1"
    by (rule word_and_le1)
qed

subsection \<open>Numbers of many words\<close>

lemma bigint_val_Nil [simp]: "bigint_val [] = 0"
  by (simp add: bigint_val_def)

lemma bigint_val_Cons [simp]: "bigint_val (w # ws) = unat w + 2 ^ 32 * bigint_val ws"
  by (simp add: bigint_val_def)

lemma bigint_val_less: "bigint_val a < 2 ^ (32 * length a)"
proof (induction a)
  case Nil
  then show ?case by simp
next
  case (Cons w ws)
  have "unat w + 2 ^ 32 * bigint_val ws < 2 ^ 32 + 2 ^ 32 * bigint_val ws"
    using unat_u32_less[of w] by simp
  also have "\<dots> = 2 ^ 32 * (bigint_val ws + 1)" by simp
  also have "\<dots> \<le> 2 ^ 32 * 2 ^ (32 * length ws)"
    using Cons.IH by (intro mult_le_mono2) simp
  finally show ?case by (simp add: power_add)
qed

lemma bigint_val_append:
  "bigint_val (xs @ ys) = bigint_val xs + 2 ^ (32 * length xs) * bigint_val ys"
  by (induction xs) (simp_all add: power_add algebra_simps)

lemma bigint_val_inj:
  "length a = length b \<Longrightarrow> bigint_val a = bigint_val b \<Longrightarrow> a = b"
proof (induction a b rule: list_induct2)
  case Nil
  then show ?case by simp
next
  case (Cons x xs y ys)
  from Cons.prems have e: "unat x + 2 ^ 32 * bigint_val xs = unat y + 2 ^ 32 * bigint_val ys"
    by simp
  then have "(unat x + 2 ^ 32 * bigint_val xs) mod 2 ^ 32 = (unat y + 2 ^ 32 * bigint_val ys) mod 2 ^ 32"
    by simp
  then have xy: "unat x = unat y"
    using unat_u32_less[of x] unat_u32_less[of y] by simp
  with e have "bigint_val xs = bigint_val ys" by simp
  with Cons.IH xy show ?case by (simp add: word_unat_eq_iff)
qed

lemma bigint_is_zero_val: "bigint_is_zero a \<longleftrightarrow> bigint_val a = 0"
  by (induction a) (auto simp: unat_eq_zero)

lemma length_bigint_zero [simp]: "length bigint_zero = WORDS_COUNT"
  by (simp add: bigint_zero_def)

lemma bigint_val_replicate_0 [simp]: "bigint_val (replicate k 0) = 0"
  by (induction k) simp_all

lemma bigint_val_zero [simp]: "bigint_val bigint_zero = 0"
  by (simp add: bigint_zero_def)

lemma length_bigint_set_u32 [simp]: "length (bigint_set_u32 v) = WORDS_COUNT"
  by (simp add: bigint_set_u32_def)

lemma bigint_set_u32_Cons: "bigint_set_u32 v = v # replicate (WORDS_COUNT - 1) 0"
  by (simp add: bigint_set_u32_def bigint_zero_def WORDS_COUNT_def numeral_eq_Suc)

lemma bigint_val_set_u32 [simp]: "bigint_val (bigint_set_u32 v) = unat v"
  by (simp add: bigint_set_u32_Cons)

lemma bigint_is_one_val: "a \<noteq> [] \<Longrightarrow> bigint_is_one a \<longleftrightarrow> bigint_val a = 1"
proof (cases a)
  case Nil
  then show "a \<noteq> [] \<Longrightarrow> ?thesis" by simp
next
  case (Cons w ws)
  have "unat w + 2 ^ 32 * bigint_val ws = 1 \<longleftrightarrow> unat w = 1 \<and> bigint_val ws = 0"
    using unat_u32_less[of w] by (cases "bigint_val ws") auto
  then show ?thesis
    using Cons by (auto simp: bigint_is_one_def bigint_is_zero_val word_unat_eq_iff)
qed

lemma bigint_is_even_val: "a \<noteq> [] \<Longrightarrow> bigint_is_even a \<longleftrightarrow> even (bigint_val a)"
proof (cases a)
  case Nil
  then show "a \<noteq> [] \<Longrightarrow> ?thesis" by simp
next
  case (Cons w ws)
  have "w AND 1 = 0 \<longleftrightarrow> unat (w AND 1) = 0"
    by (simp add: unat_eq_zero)
  also have "unat (w AND 1) = unat w AND unat (1 :: u32)"
    by (rule unsigned_and_eq)
  also have "\<dots> = unat w mod 2"
    by (simp add: and_one_eq)
  finally have "w AND 1 = 0 \<longleftrightarrow> even (unat w)"
    by (simp add: even_iff_mod_2_eq_zero)
  moreover have "even (unat w + 2 ^ 32 * bigint_val ws) \<longleftrightarrow> even (unat w)"
    by simp
  ultimately show ?thesis
    using Cons by (simp add: bigint_is_even_def del: even_add)
qed

text \<open>Comparison.\<close>

lemma compare_from_top_val:
  "length ts = length us \<Longrightarrow>
   compare_from_top ts us =
     (if bigint_val (rev ts) > bigint_val (rev us) then 1
      else if bigint_val (rev ts) < bigint_val (rev us) then - 1 else 0)"
proof (induction ts us rule: list_induct2)
  case Nil
  then show ?case by simp
next
  case (Cons x ts y us)
  let ?B = "2 ^ (32 * length ts) :: nat"
  have l: "length (rev ts) = length ts" "length (rev us) = length ts"
    using Cons.hyps by simp_all
  have bt: "bigint_val (rev ts) < ?B" using bigint_val_less[of "rev ts"] by simp
  have bu: "bigint_val (rev us) < ?B" using bigint_val_less[of "rev us"] l by simp
  have vt: "bigint_val (rev (x # ts)) = bigint_val (rev ts) + ?B * unat x"
    by (simp add: bigint_val_append)
  have vu: "bigint_val (rev (y # us)) = bigint_val (rev us) + ?B * unat y"
    using l by (simp add: bigint_val_append)
  show ?case
  proof (cases "x > y")
    case True
    then have "unat y + 1 \<le> unat x" by (simp add: word_less_nat_alt)
    then have "?B * (unat y + 1) \<le> ?B * unat x" by (intro mult_le_mono2)
    then have "bigint_val (rev (y # us)) < bigint_val (rev (x # ts))"
      using bu unfolding vt vu by simp
    with True show ?thesis by simp
  next
    case False
    show ?thesis
    proof (cases "x < y")
      case True
      then have "unat x + 1 \<le> unat y" by (simp add: word_less_nat_alt)
      then have "?B * (unat x + 1) \<le> ?B * unat y" by (intro mult_le_mono2)
      then have "bigint_val (rev (x # ts)) < bigint_val (rev (y # us))"
        using bt unfolding vt vu by simp
      with True False show ?thesis by simp
    next
      case nlt: False
      with False have "x = y" by simp
      then show ?thesis
        using Cons.IH False nlt unfolding vt vu by simp
    qed
  qed
qed

lemma bigint_compare_val:
  "length a = length b \<Longrightarrow>
   bigint_compare a b =
     (if bigint_val a > bigint_val b then 1 else if bigint_val a < bigint_val b then - 1 else 0)"
  using compare_from_top_val[of "rev a" "rev b"] by (simp add: bigint_compare_def)

lemma bigint_compare_ge: "length a = length b \<Longrightarrow> bigint_compare a b \<ge> 0 \<longleftrightarrow> bigint_val a \<ge> bigint_val b"
  by (simp add: bigint_compare_val)

lemma bigint_compare_less: "length a = length b \<Longrightarrow> bigint_compare a b < 0 \<longleftrightarrow> bigint_val a < bigint_val b"
  by (simp add: bigint_compare_val)

lemma bigint_compare_eq: "length a = length b \<Longrightarrow> bigint_compare a b = 0 \<longleftrightarrow> bigint_val a = bigint_val b"
  by (simp add: bigint_compare_val)


text \<open>Subtraction.\<close>

lemma length_sub_loop [simp]: "length xs = length ys \<Longrightarrow> length (sub_loop b xs ys) = length xs"
  by (induction xs ys arbitrary: b rule: list_induct2) (simp_all add: Let_def)

lemma sub_loop_val:
  "length xs = length ys \<Longrightarrow> b \<le> 1 \<Longrightarrow>
   int (bigint_val (sub_loop b xs ys)) =
     (int (bigint_val xs) - int (bigint_val ys) - int (unat b)) mod 2 ^ (32 * length xs)"
proof (induction xs ys arbitrary: b rule: list_induct2)
  case Nil
  then show ?case by simp
next
  case (Cons x xs y ys)
  define diff where "diff = ucast x - ucast y - b"
  define lo where "lo = uint (ucast diff :: u32)"
  define bo where "bo = drop_bit 32 diff AND 1"
  define P where "P = (2 :: int) ^ (32 * length xs)"
  define k where "k = int (bigint_val xs) - int (bigint_val ys) - int (unat bo)"
  have step: "int (unat x) - int (unat y) - int (unat b) = lo - 2 ^ 32 * int (unat bo)"
    and bo: "bo \<le> 1"
    using sub_limb[OF Cons.prems, of x y] by (simp_all add: diff_def lo_def bo_def)
  have lo: "0 \<le> lo" "lo < 2 ^ 32"
    unfolding lo_def using uint_lt2p[of "ucast diff :: u32"] by simp_all
  have P: "0 < P" by (simp add: P_def)
  have "int (bigint_val (sub_loop b (x # xs) (y # ys))) = lo + 2 ^ 32 * int (bigint_val (sub_loop bo xs ys))"
    by (simp add: Let_def diff_def lo_def bo_def)
  also have "int (bigint_val (sub_loop bo xs ys)) = k mod P"
    using Cons.IH[OF bo] by (simp add: k_def P_def)
  also have "lo + 2 ^ 32 * (k mod P) = (lo + 2 ^ 32 * k) mod (2 ^ 32 * P)"
    using mod_mult_split_int[OF lo P, of k] by simp
  also have "lo + 2 ^ 32 * k =
      int (bigint_val (x # xs)) - int (bigint_val (y # ys)) - int (unat b)"
    using step by (simp add: k_def algebra_simps)
  also have "2 ^ 32 * P = 2 ^ (32 * length (x # xs))"
    by (simp add: P_def power_add)
  finally show ?case .
qed

lemma bigint_sub_val:
  assumes "length a = length b" "bigint_val b \<le> bigint_val a"
  shows "bigint_val (bigint_sub a b) = bigint_val a - bigint_val b"
    and "length (bigint_sub a b) = length a"
proof -
  have "int (bigint_val (bigint_sub a b)) =
      (int (bigint_val a) - int (bigint_val b)) mod 2 ^ (32 * length a)"
    using sub_loop_val[OF assms(1), of 0] by (simp add: bigint_sub_def)
  also have "\<dots> = int (bigint_val a) - int (bigint_val b)"
  proof (rule mod_pos_pos_trivial)
    show "0 \<le> int (bigint_val a) - int (bigint_val b)" using assms(2) by simp
    have "int (bigint_val a) < 2 ^ (32 * length a)"
      using bigint_val_less[of a] by (metis of_nat_less_iff of_nat_numeral of_nat_power)
    then show "int (bigint_val a) - int (bigint_val b) < 2 ^ (32 * length a)" by linarith
  qed
  finally show "bigint_val (bigint_sub a b) = bigint_val a - bigint_val b"
    using assms(2) by linarith
  show "length (bigint_sub a b) = length a"
    using assms(1) by (simp add: bigint_sub_def)
qed

text \<open>Shifts.\<close>

lemma length_shl_loop [simp]: "length (shl_loop c xs) = length xs"
  by (induction xs arbitrary: c) simp_all

lemma shl_loop_val:
  "c \<le> 1 \<Longrightarrow> bigint_val (shl_loop c xs) = (2 * bigint_val xs + unat c) mod 2 ^ (32 * length xs)"
proof (induction xs arbitrary: c)
  case Nil
  then show ?case by simp
next
  case (Cons w ws)
  define new where "new = unat (push_bit 1 w OR c)"
  define c' where "c' = drop_bit 31 w"
  define P where "P = (2 :: nat) ^ (32 * length ws)"
  have step: "2 * unat w + unat c = new + 2 ^ 32 * unat c'" and c': "c' \<le> 1"
    using shl_limb[OF Cons.prems, of w] by (simp_all add: new_def c'_def)
  have new: "new < 2 ^ 32" using unat_u32_less[of "push_bit 1 w OR c"] by (simp add: new_def)
  have P: "0 < P" by (simp add: P_def)
  have "bigint_val (shl_loop c (w # ws)) = new + 2 ^ 32 * bigint_val (shl_loop c' ws)"
    by (simp add: new_def c'_def)
  also have "bigint_val (shl_loop c' ws) = (2 * bigint_val ws + unat c') mod P"
    using Cons.IH[OF c'] by (simp add: P_def)
  also have "new + 2 ^ 32 * ((2 * bigint_val ws + unat c') mod P) =
      (new + 2 ^ 32 * (2 * bigint_val ws + unat c')) mod (2 ^ 32 * P)"
    using mod_mult_split_nat[OF new P, of "2 * bigint_val ws + unat c'"] by simp
  also have "new + 2 ^ 32 * (2 * bigint_val ws + unat c') = 2 * bigint_val (w # ws) + unat c"
    using step by (simp add: algebra_simps)
  also have "2 ^ 32 * P = 2 ^ (32 * length (w # ws))"
    by (simp add: P_def power_add)
  finally show ?case .
qed

lemma bigint_shl_one_val:
  "bigint_val (bigint_shl_one a) = (2 * bigint_val a) mod 2 ^ (32 * length a)"
  using shl_loop_val[of 0 a] by (simp add: bigint_shl_one_def)

lemma length_bigint_shl_one [simp]: "length (bigint_shl_one a) = length a"
  by (simp add: bigint_shl_one_def)

lemma length_shr_loop [simp]: "length (shr_loop c ts) = length ts"
  by (induction ts arbitrary: c) simp_all

lemma shr_loop_val:
  "c \<le> 1 \<Longrightarrow>
   bigint_val (rev (shr_loop c ts)) = (unat c * 2 ^ (32 * length ts) + bigint_val (rev ts)) div 2"
proof (induction ts arbitrary: c)
  case Nil
  then show ?case using word_le_1_cases[of c] by auto
next
  case (Cons w ws)
  define new where "new = unat (drop_bit 1 w OR push_bit 31 c)"
  define c' where "c' = w AND 1"
  define P where "P = (2 :: nat) ^ (32 * length ws)"
  define V where "V = bigint_val (rev ws)"
  have step: "unat c * 2 ^ 32 + unat w = 2 * new + unat c'" and c': "c' \<le> 1"
    using shr_limb[OF Cons.prems, of w] by (simp_all add: new_def c'_def)
  have "bigint_val (rev (shr_loop c (w # ws))) = bigint_val (rev (shr_loop c' ws)) + P * new"
    by (simp add: bigint_val_append new_def c'_def P_def)
  also have "bigint_val (rev (shr_loop c' ws)) = (unat c' * P + V) div 2"
    using Cons.IH[OF c'] by (simp add: P_def V_def)
  also have "(unat c' * P + V) div 2 + P * new = (unat c' * P + V + 2 * (P * new)) div 2"
    by simp
  also have "unat c' * P + V + 2 * (P * new) = P * (2 * new + unat c') + V"
    by (simp add: algebra_simps)
  also have "\<dots> = P * (unat c * 2 ^ 32 + unat w) + V"
    by (simp only: step)
  also have "\<dots> = unat c * 2 ^ (32 * length (w # ws)) + bigint_val (rev (w # ws))"
    by (simp add: bigint_val_append P_def V_def power_add algebra_simps)
  finally show ?case .
qed

lemma bigint_shr_one_val: "bigint_val (bigint_shr_one a) = bigint_val a div 2"
  using shr_loop_val[of 0 "rev a"] by (simp add: bigint_shr_one_def)

lemma length_bigint_shr_one [simp]: "length (bigint_shr_one a) = length a"
  by (simp add: bigint_shr_one_def)

text \<open>Addition.\<close>

lemma length_add_loop [simp]:
  "length xs = length ys \<Longrightarrow> length (fst (add_loop c xs ys)) = length xs"
  by (induction xs ys arbitrary: c rule: list_induct2) (simp_all add: Let_def split_beta)

lemma add_loop_val:
  "length xs = length ys \<Longrightarrow> c \<le> 1 \<Longrightarrow>
   bigint_val (fst (add_loop c xs ys)) + 2 ^ (32 * length xs) * unat (snd (add_loop c xs ys)) =
     bigint_val xs + bigint_val ys + unat c"
proof (induction xs ys arbitrary: c rule: list_induct2)
  case Nil
  then show ?case by simp
next
  case (Cons x xs y ys)
  define s where "s = c + ucast x + ucast y"
  define c' where "c' = drop_bit 32 s"
  have step: "unat c + unat x + unat y = unat (ucast s :: u32) + 2 ^ 32 * unat c'"
    and c': "c' \<le> 1"
    using add_limb[OF Cons.prems, of x y] by (simp_all add: s_def c'_def)
  have "bigint_val (fst (add_loop c (x # xs) (y # ys))) +
        2 ^ (32 * length (x # xs)) * unat (snd (add_loop c (x # xs) (y # ys))) =
      unat (ucast s :: u32) +
        2 ^ 32 * (bigint_val (fst (add_loop c' xs ys)) + 2 ^ (32 * length xs) * unat (snd (add_loop c' xs ys)))"
    by (simp add: Let_def s_def c'_def power_add algebra_simps split: prod.split)
  also have "\<dots> = unat (ucast s :: u32) + 2 ^ 32 * (bigint_val xs + bigint_val ys + unat c')"
    by (simp only: Cons.IH[OF c'])
  also have "\<dots> = bigint_val (x # xs) + bigint_val (y # ys) + unat c"
    using step by (simp add: algebra_simps)
  finally show ?case .
qed

subsection \<open>The loops of the modular layer\<close>

text \<open>Reduction by repeated subtraction.\<close>

lemma subtract_while_gte_val:
  "length temp = length n \<Longrightarrow> 0 < bigint_val n \<Longrightarrow>
   \<exists>t. subtract_while_gte temp n = Some t \<and> bigint_val t = bigint_val temp mod bigint_val n \<and>
       length t = length temp"
proof (induction "bigint_val temp" arbitrary: temp rule: less_induct)
  case less
  show ?case
  proof (cases "bigint_val n \<le> bigint_val temp")
    case True
    have l: "length (bigint_sub temp n) = length n"
      and v: "bigint_val (bigint_sub temp n) = bigint_val temp - bigint_val n"
      using bigint_sub_val[OF less.prems(1) True] less.prems(1) by simp_all
    have "bigint_val (bigint_sub temp n) < bigint_val temp"
      using v True less.prems(2) by simp
    from less.hyps[OF this l less.prems(2)] obtain t where
      t: "subtract_while_gte (bigint_sub temp n) n = Some t"
         "bigint_val t = bigint_val (bigint_sub temp n) mod bigint_val n"
         "length t = length (bigint_sub temp n)"
      by blast
    have "subtract_while_gte temp n = Some t"
      using True t(1) less.prems(1)
      by (subst subtract_while_gte.simps) (simp add: bigint_compare_ge)
    moreover have "bigint_val t = bigint_val temp mod bigint_val n"
      using t(2) v True by (simp add: le_mod_geq)
    moreover have "length t = length temp"
      using t(3) l less.prems(1) by simp
    ultimately show ?thesis by blast
  next
    case False
    then have "subtract_while_gte temp n = Some temp"
      using less.prems(1)
      by (subst subtract_while_gte.simps) (simp add: bigint_compare_ge)
    with False show ?thesis by simp
  qed
qed

text \<open>Stripping the factors of two.\<close>

lemma strip_twos_val:
  "d \<noteq> [] \<Longrightarrow> 0 < bigint_val d \<Longrightarrow>
   \<exists>d' s'. strip_twos d s = Some (d', s') \<and> odd (bigint_val d') \<and> s \<le> s' \<and>
       bigint_val d = bigint_val d' * 2 ^ nat (s' - s) \<and> length d' = length d"
proof (induction "bigint_val d" arbitrary: d s rule: less_induct)
  case less
  show ?case
  proof (cases "even (bigint_val d)")
    case True
    let ?h = "bigint_shr_one d"
    have v: "bigint_val ?h = bigint_val d div 2" by (rule bigint_shr_one_val)
    have ne: "?h \<noteq> []" using less.prems(1) by (metis length_bigint_shr_one length_0_conv)
    have pos: "0 < bigint_val ?h" using v True less.prems(2) by (auto elim: evenE)
    have lt: "bigint_val ?h < bigint_val d" using v less.prems(2) by simp
    from less.hyps[OF lt ne pos, of "s + 1"] obtain d' s' where
      r: "strip_twos ?h (s + 1) = Some (d', s')" "odd (bigint_val d')" "s + 1 \<le> s'"
         "bigint_val ?h = bigint_val d' * 2 ^ nat (s' - (s + 1))" "length d' = length ?h"
      by blast
    have "strip_twos d s = Some (d', s')"
      using True r(1) less.prems(1)
      by (subst strip_twos.simps) (simp add: bigint_is_even_val)
    moreover have "bigint_val d = bigint_val d' * 2 ^ nat (s' - s)"
    proof -
      have "bigint_val d = 2 * bigint_val ?h" using v True by (auto elim: evenE)
      also have "\<dots> = bigint_val d' * 2 ^ Suc (nat (s' - (s + 1)))"
        using r(4) by simp
      also have "Suc (nat (s' - (s + 1))) = nat (s' - s)" using r(3) by simp
      finally show ?thesis .
    qed
    ultimately show ?thesis using r(2,3,5) by auto
  next
    case False
    then have "strip_twos d s = Some (d, s)"
      using less.prems(1) by (subst strip_twos.simps) (simp add: bigint_is_even_val)
    with False show ?thesis by simp
  qed
qed

text \<open>The two loops of the modular multiplication.\<close>

lemma align_loop_result:
  "align_loop ns rem sh = Some r \<Longrightarrow> length ns = length rem \<Longrightarrow>
   \<exists>k. snd r = sh + int k \<and>
       bigint_val (fst r) = (bigint_val ns * 2 ^ k) mod 2 ^ (32 * length ns) \<and>
       bigint_val rem \<le> bigint_val (fst r) \<and> length (fst r) = length ns"
proof (induction rule: align_loop.raw_induct[rotated 1, consumes 1])
  case (1 align_loop ns rem sh r)
  show ?case
  proof (cases "bigint_compare ns rem < 0")
    case True
    with 1(2) have "align_loop (bigint_shl_one ns) rem (sh + 1) = Some r" by simp
    from 1(1)[OF this] 1(3) obtain k where
      k: "snd r = sh + 1 + int k"
         "bigint_val (fst r) = (bigint_val (bigint_shl_one ns) * 2 ^ k) mod 2 ^ (32 * length ns)"
         "bigint_val rem \<le> bigint_val (fst r)" "length (fst r) = length ns"
      by auto
    have "(2 * bigint_val ns mod 2 ^ (32 * length ns) * 2 ^ k) mod 2 ^ (32 * length ns) =
        (2 * bigint_val ns * 2 ^ k) mod 2 ^ (32 * length ns)"
      by (rule mod_mult_left_eq)
    then have "bigint_val (fst r) = (bigint_val ns * 2 ^ Suc k) mod 2 ^ (32 * length ns)"
      unfolding k(2) bigint_shl_one_val
      by (simp add: mult.commute mult.left_commute)
    with k(1,3,4) show ?thesis
      by (intro exI[of _ "Suc k"]) simp
  next
    case False
    with 1(2) have r: "r = (ns, sh)" by simp
    have "bigint_val ns mod 2 ^ (32 * length ns) = bigint_val ns"
      using bigint_val_less[of ns] by simp
    with False 1(3) show ?thesis
      by (intro exI[of _ 0]) (simp add: r bigint_compare_less)
  qed
qed

lemma subtract_loop_neg: "sh < 0 \<Longrightarrow> subtract_loop rem ns sh = rem"
  by (subst subtract_loop.simps) simp

lemma subtract_loop_step:
  "0 \<le> sh \<Longrightarrow> subtract_loop rem ns sh =
     subtract_loop (if bigint_compare rem ns \<ge> 0 then bigint_sub rem ns else rem)
       (bigint_shr_one ns) (sh - 1)"
  by (subst subtract_loop.simps) (simp add: Let_def)

lemma subtract_loop_val:
  "length rem = length ns \<Longrightarrow> bigint_val ns = m * 2 ^ j \<Longrightarrow> 0 < m \<Longrightarrow>
   bigint_val rem < 2 * (m * 2 ^ j) \<Longrightarrow>
   bigint_val (subtract_loop rem ns (int j)) = bigint_val rem mod m \<and>
   length (subtract_loop rem ns (int j)) = length rem"
proof (induction j arbitrary: rem ns)
  case 0
  let ?rem1 = "if bigint_compare rem ns \<ge> 0 then bigint_sub rem ns else rem"
  have e: "subtract_loop rem ns (int 0) = ?rem1"
    by (simp add: subtract_loop_step subtract_loop_neg)
  have ns: "bigint_val ns = m" using 0 by simp
  show ?case
  proof (cases "bigint_val ns \<le> bigint_val rem")
    case True
    then have "bigint_val ?rem1 = bigint_val rem - m" "length ?rem1 = length rem"
      using bigint_sub_val[OF "0.prems"(1) True] "0.prems"(1) ns by (simp_all add: bigint_compare_ge)
    moreover have "bigint_val rem mod m = bigint_val rem - m"
      using True ns "0.prems"(4) by (simp add: le_mod_geq)
    ultimately show ?thesis unfolding e by simp
  next
    case False
    then have "?rem1 = rem" using "0.prems"(1) by (simp add: bigint_compare_ge)
    with False ns show ?thesis unfolding e by simp
  qed
next
  case (Suc j)
  let ?rem1 = "if bigint_compare rem ns \<ge> 0 then bigint_sub rem ns else rem"
  have e: "subtract_loop rem ns (int (Suc j)) = subtract_loop ?rem1 (bigint_shr_one ns) (int j)"
    by (simp add: subtract_loop_step)
  have h: "bigint_val (bigint_shr_one ns) = m * 2 ^ j"
    using Suc.prems(2) by (simp add: bigint_shr_one_val)
  have r1: "length ?rem1 = length rem \<and> bigint_val ?rem1 < bigint_val ns \<and>
            bigint_val ?rem1 mod m = bigint_val rem mod m"
  proof (cases "bigint_val ns \<le> bigint_val rem")
    case True
    then have v: "bigint_val ?rem1 = bigint_val rem - bigint_val ns" "length ?rem1 = length rem"
      using bigint_sub_val[OF Suc.prems(1) True] Suc.prems(1) by (simp_all add: bigint_compare_ge)
    have "(bigint_val rem - m * 2 ^ Suc j) mod m = bigint_val rem mod m"
      using True Suc.prems(2)
      by (metis (no_types, lifting) le_add_diff_inverse2 mod_mult_self1 mult.assoc mult.commute)
    with v True Suc.prems show ?thesis by auto
  next
    case False
    then have "?rem1 = rem" using Suc.prems(1) by (simp add: bigint_compare_ge)
    with False show ?thesis by simp
  qed
  have "bigint_val (subtract_loop ?rem1 (bigint_shr_one ns) (int j)) = bigint_val ?rem1 mod m \<and>
        length (subtract_loop ?rem1 (bigint_shr_one ns) (int j)) = length ?rem1"
  proof (rule Suc.IH[OF _ h Suc.prems(3)])
    show "length ?rem1 = length (bigint_shr_one ns)" using r1 Suc.prems(1) by simp
    show "bigint_val ?rem1 < 2 * (m * 2 ^ j)" using r1 Suc.prems(2) by simp
  qed
  with r1 show ?case unfolding e by simp
qed

lemma subtract_loop_zero:
  "length rem = length ns \<Longrightarrow> bigint_val rem = 0 \<Longrightarrow>
   bigint_val (subtract_loop rem ns sh) = 0 \<and> length (subtract_loop rem ns sh) = length rem"
proof (induction "nat (sh + 1)" arbitrary: rem ns sh)
  case 0
  then show ?case by (simp add: subtract_loop_neg)
next
  case (Suc x)
  then have sh: "0 \<le> sh" by simp
  let ?rem1 = "if bigint_compare rem ns \<ge> 0 then bigint_sub rem ns else rem"
  have r1: "bigint_val ?rem1 = 0 \<and> length ?rem1 = length rem"
  proof (cases "bigint_val ns \<le> bigint_val rem")
    case True
    then show ?thesis
      using bigint_sub_val[OF Suc.prems(1) True] Suc.prems by (simp add: bigint_compare_ge)
  next
    case False
    then show ?thesis using Suc.prems by (simp add: bigint_compare_ge)
  qed
  have "x = nat (sh - 1 + 1)" using Suc.hyps(2) by simp
  from Suc.hyps(1)[OF this, of ?rem1 "bigint_shr_one ns"] r1 Suc.prems(1)
  show ?case unfolding subtract_loop_step[OF sh] by simp
qed

lemma length_mul_inner [simp]:
  "length (fst (mul_inner ai bs i j c temp)) = length temp"
  by (induction bs arbitrary: j c temp) (simp_all add: Let_def)

lemma length_mul_outer [simp]: "length (mul_outer as b i temp) = length temp"
  by (induction as arbitrary: i temp) (simp_all add: Let_def split_beta)

lemma length_bigint_mul [simp]: "length (bigint_mul a b) = WORDS_COUNT"
  by (simp add: bigint_mul_def)

lemma align_loop_terminates:
  "length ns = length rem \<Longrightarrow> 0 < bigint_val ns \<Longrightarrow>
   bigint_val rem < 2 ^ (32 * length ns - 1) \<Longrightarrow>
   \<exists>r k. align_loop ns rem sh = Some r \<and> snd r = sh + int k \<and>
       bigint_val (fst r) = bigint_val ns * 2 ^ k \<and>
       bigint_val rem \<le> bigint_val (fst r) \<and> length (fst r) = length ns"
proof (induction "bigint_val rem - bigint_val ns" arbitrary: ns sh rule: less_induct)
  case less
  show ?case
  proof (cases "bigint_val ns < bigint_val rem")
    case True
    have len: "0 < length ns"
      using less.prems(2) by (cases ns) simp_all
    have "2 * bigint_val ns < 2 * 2 ^ (32 * length ns - 1)"
      using True less.prems(3) by simp
    also have "\<dots> = 2 ^ (32 * length ns)"
      using len by (metis power_Suc Suc_diff_1 mult_pos_pos zero_less_numeral)
    finally have v: "bigint_val (bigint_shl_one ns) = 2 * bigint_val ns"
      by (simp add: bigint_shl_one_val)
    have m: "bigint_val rem - bigint_val (bigint_shl_one ns) < bigint_val rem - bigint_val ns"
      using v True less.prems(2) by simp
    from less.hyps[OF m, of "sh + 1"] less.prems v
    obtain r k where r: "align_loop (bigint_shl_one ns) rem (sh + 1) = Some r"
        "snd r = sh + 1 + int k" "bigint_val (fst r) = 2 * bigint_val ns * 2 ^ k"
        "bigint_val rem \<le> bigint_val (fst r)" "length (fst r) = length ns"
      by auto
    have "align_loop ns rem sh = Some r"
      using True r(1) less.prems(1)
      by (subst align_loop.simps) (simp add: bigint_compare_less)
    with r(2-5) show ?thesis
      by (intro exI[of _ r] exI[of _ "Suc k"]) simp
  next
    case False
    then have "align_loop ns rem sh = Some (ns, sh)"
      using less.prems(1)
      by (subst align_loop.simps) (simp add: bigint_compare_less)
    with False show ?thesis
      by (intro exI[of _ "(ns, sh)"] exI[of _ 0]) simp
  qed
qed

lemma bigint_mod_mul_less:
  assumes "bigint_mod_mul a b n = Some c" "length n = WORDS_COUNT" "0 < bigint_val n"
  shows "bigint_val c < bigint_val n \<and> length c = WORDS_COUNT"
proof -
  define p where "p = bigint_mul a b"
  have lp: "length p = WORDS_COUNT" by (simp add: p_def)
  from assms(1) obtain ns sh where al: "align_loop n p 0 = Some (ns, sh)"
    and c: "c = subtract_loop p ns sh"
    by (auto simp: bigint_mod_mul_def Let_def p_def split: bind_splits)
  from align_loop_result[OF al] assms(2) lp obtain k where
    k: "sh = int k" "bigint_val ns = (bigint_val n * 2 ^ k) mod 2 ^ (32 * WORDS_COUNT)"
       "bigint_val p \<le> bigint_val ns" "length ns = WORDS_COUNT"
    by auto
  show ?thesis
  proof (cases "bigint_val ns = 0")
    case True
    with k(3) have "bigint_val p = 0" by simp
    from subtract_loop_zero[OF _ this, of ns sh] lp k(4) assms(3) show ?thesis
      by (simp add: c)
  next
    case False
    have kl: "k < 32 * WORDS_COUNT"
    proof (rule ccontr)
      assume "\<not> k < 32 * WORDS_COUNT"
      then obtain d where "k = 32 * WORDS_COUNT + d" by (metis le_Suc_ex not_less)
      then have "(bigint_val n * 2 ^ k) mod 2 ^ (32 * WORDS_COUNT) = 0"
        by (simp add: power_add)
      with k(2) False show False by simp
    qed
    define Q where "Q = (2 :: nat) ^ (32 * WORDS_COUNT - k)"
    define m where "m = bigint_val n mod Q"
    have "(2 :: nat) ^ (32 * WORDS_COUNT) = 2 ^ k * Q"
      using kl by (simp add: Q_def flip: power_add)
    then have ns: "bigint_val ns = m * 2 ^ k"
      unfolding k(2) m_def
      using mult_mod_right[of "2 ^ k" "bigint_val n" Q] by (simp add: mult.commute)
    have m: "0 < m" using False ns by (cases "m = 0") simp_all
    have "m \<le> bigint_val n" unfolding m_def by (rule mod_less_eq_dividend)
    moreover have "bigint_val (subtract_loop p ns (int k)) = bigint_val p mod m \<and>
        length (subtract_loop p ns (int k)) = length p"
    proof (rule subtract_loop_val[OF _ ns m])
      show "length p = length ns" using lp k(4) by simp
      have "0 < m * 2 ^ k" using m by simp
      with k(3) ns show "bigint_val p < 2 * (m * 2 ^ k)" by linarith
    qed
    moreover have "bigint_val p mod m < m" using m by simp
    ultimately show ?thesis using lp by (simp add: c k(1))
  qed
qed

lemma bigint_mod_mul_reduces:
  assumes "length n = WORDS_COUNT" "0 < bigint_val n"
    and "bigint_val (bigint_mul a b) < 2 ^ (32 * WORDS_COUNT - 1)"
  shows "\<exists>c. bigint_mod_mul a b n = Some c \<and>
           bigint_val c = bigint_val (bigint_mul a b) mod bigint_val n \<and>
           length c = WORDS_COUNT"
proof -
  define p where "p = bigint_mul a b"
  have lp: "length p = WORDS_COUNT" by (simp add: p_def)
  from align_loop_terminates[of n p 0] assms lp obtain r k where
    r: "align_loop n p 0 = Some r" "snd r = int k" "bigint_val (fst r) = bigint_val n * 2 ^ k"
       "bigint_val p \<le> bigint_val (fst r)" "length (fst r) = WORDS_COUNT"
    by (auto simp: p_def)
  have "bigint_val (subtract_loop p (fst r) (int k)) = bigint_val p mod bigint_val n \<and>
        length (subtract_loop p (fst r) (int k)) = length p"
  proof (rule subtract_loop_val[OF _ r(3) assms(2)])
    show "length p = length (fst r)" using lp r(5) by simp
    have "0 < bigint_val n * 2 ^ k" using assms(2) by simp
    with r(3,4) show "bigint_val p < 2 * (bigint_val n * 2 ^ k)" by linarith
  qed
  moreover have "bigint_mod_mul a b n = Some (subtract_loop p (fst r) (int k))"
    using r(1,2) by (cases r) (simp add: bigint_mod_mul_def p_def)
  ultimately show ?thesis using lp by (simp add: p_def)
qed

lemma mod_exp_loop_less:
  "mod_exp_loop result b e m = Some c \<Longrightarrow> length m = WORDS_COUNT \<Longrightarrow> 0 < bigint_val m \<Longrightarrow>
   bigint_val result < bigint_val m \<Longrightarrow> length result = WORDS_COUNT \<Longrightarrow>
   bigint_val c < bigint_val m \<and> length c = WORDS_COUNT"
proof (induction rule: mod_exp_loop.raw_induct[rotated 1, consumes 1])
  case (1 mod_exp_loop result b e m c)
  show ?case
  proof (cases "bigint_is_zero e")
    case True
    with 1(2) have "c = result" by simp
    with 1 show ?thesis by simp
  next
    case False
    with 1(2) obtain result1 b1 where
      r1: "(if e ! 0 AND 1 \<noteq> 0 then bigint_mod_mul result b m else Some result) = Some result1"
      and b1: "bigint_mod_mul b b m = Some b1"
      and rec: "mod_exp_loop result1 b1 (bigint_shr_one e) m = Some c"
      by (auto split: bind_splits)
    have "bigint_val result1 < bigint_val m \<and> length result1 = WORDS_COUNT"
    proof (cases "e ! 0 AND 1 \<noteq> 0")
      case True
      with r1 have "bigint_mod_mul result b m = Some result1" by simp
      from bigint_mod_mul_less[OF this 1(3,4)] show ?thesis .
    next
      case False
      with r1 1(5,6) show ?thesis by simp
    qed
    with 1(1)[OF rec 1(3,4)] show ?thesis by simp
  qed
qed

lemma bigint_mod_exp_less:
  assumes "bigint_mod_exp base e m = Some c" "length m = WORDS_COUNT" "1 < bigint_val m"
  shows "bigint_val c < bigint_val m \<and> length c = WORDS_COUNT"
  using mod_exp_loop_less[of "bigint_set_u32 1" base e m c] assms
  by (simp add: bigint_mod_exp_def)

subsection \<open>Schoolbook multiplication\<close>

text \<open>The buffer of the schoolbook multiplication, read as a number in base \<open>2 ^ 32\<close>.\<close>

definition cells_val :: "ull list \<Rightarrow> nat" where
  "cells_val t = foldr (\<lambda>w acc. unat w + 2 ^ 32 * acc) t 0"

lemma cells_val_Nil [simp]: "cells_val [] = 0"
  by (simp add: cells_val_def)

lemma cells_val_Cons [simp]: "cells_val (w # ws) = unat w + 2 ^ 32 * cells_val ws"
  by (simp add: cells_val_def)

lemma cells_val_replicate_0 [simp]: "cells_val (replicate k 0) = 0"
  by (induction k) simp_all

lemma cells_val_append:
  "cells_val (xs @ ys) = cells_val xs + 2 ^ (32 * length xs) * cells_val ys"
  by (induction xs) (simp_all add: power_add algebra_simps)

lemma cells_val_update:
  "p < length t \<Longrightarrow>
   cells_val (t[p := v]) + unat (t ! p) * 2 ^ (32 * p) = cells_val t + unat v * 2 ^ (32 * p)"
proof (induction t arbitrary: p)
  case Nil
  then show ?case by simp
next
  case (Cons w ws)
  show ?case
  proof (cases p)
    case 0
    then show ?thesis by simp
  next
    case (Suc q)
    with Cons.prems have "q < length ws" by simp
    from Cons.IH[OF this]
    have "2 ^ 32 * (cells_val (ws[q := v]) + unat (ws ! q) * 2 ^ (32 * q)) =
          2 ^ 32 * (cells_val ws + unat v * 2 ^ (32 * q))"
      by simp
    then show ?thesis using Suc by (simp add: power_add algebra_simps)
  qed
qed

definition cells_ok :: "ull list \<Rightarrow> bool" where
  "cells_ok t = list_all (\<lambda>c. unat c < 2 ^ 32) t"

lemma cells_ok_update: "cells_ok t \<Longrightarrow> unat v < 2 ^ 32 \<Longrightarrow> cells_ok (t[p := v])"
  unfolding cells_ok_def list_all_iff
  using set_update_subset_insert[of t p v] by auto

lemma cells_ok_nth: "cells_ok t \<Longrightarrow> p < length t \<Longrightarrow> unat (t ! p) < 2 ^ 32"
  by (simp add: cells_ok_def list_all_length)

lemma cells_val_less: "cells_ok t \<Longrightarrow> cells_val t < 2 ^ (32 * length t)"
proof (induction t)
  case Nil
  then show ?case by simp
next
  case (Cons w ws)
  then have w: "unat w < 2 ^ 32" and ws: "cells_val ws < 2 ^ (32 * length ws)"
    by (simp_all add: cells_ok_def)
  have "unat w + 2 ^ 32 * cells_val ws < 2 ^ 32 + 2 ^ 32 * cells_val ws"
    using w by simp
  also have "\<dots> = 2 ^ 32 * (cells_val ws + 1)" by simp
  also have "\<dots> \<le> 2 ^ 32 * 2 ^ (32 * length ws)"
    using ws by (intro mult_le_mono2) simp
  finally show ?case by (simp add: power_add)
qed

text \<open>One cell of the product.\<close>

lemma ull_low_mask: "(0xFFFFFFFF :: ull) = mask 32"
  by (simp add: mask_eq_exp_minus_1)

lemma mul_cell:
  fixes ai bj :: u32 and t c :: ull
  assumes "unat t < 2 ^ 32" "unat c < 2 ^ 32"
  defines "p \<equiv> ucast ai * ucast bj + t + c"
  shows "unat (p AND 0xFFFFFFFF) + 2 ^ 32 * unat (drop_bit 32 p) = unat ai * unat bj + unat t + unat c"
    and "unat (p AND 0xFFFFFFFF) < 2 ^ 32"
    and "unat (drop_bit 32 p) < 2 ^ 32"
proof -
  have a: "unat ai \<le> 2 ^ 32 - 1" and b: "unat bj \<le> 2 ^ 32 - 1"
    using unat_u32_less[of ai] unat_u32_less[of bj] by simp_all
  have "unat ai * unat bj \<le> (2 ^ 32 - 1) * (2 ^ 32 - 1)"
    using a b by (rule mult_le_mono)
  then have ab: "unat ai * unat bj \<le> 18446744065119617025" by simp
  have m: "unat (ucast ai * ucast bj :: ull) = unat ai * unat bj"
  proof -
    have "unat (ucast ai :: ull) * unat (ucast bj :: ull) < 2 ^ LENGTH(64)"
      using ab by (simp add: unat_ucast_u32_ull)
    then have "unat (ucast ai * ucast bj :: ull) = unat (ucast ai :: ull) * unat (ucast bj :: ull)"
      by (rule unat_mult_lem[THEN iffD1])
    then show ?thesis by (simp add: unat_ucast_u32_ull)
  qed
  have s1: "unat (ucast ai * ucast bj + t) = unat ai * unat bj + unat t"
    unfolding m[symmetric]
    by (rule unat_add_no_overflow) (use ab assms(1) in \<open>simp add: m\<close>)
  have p: "unat p = unat ai * unat bj + unat t + unat c"
    unfolding p_def s1[symmetric]
    by (rule unat_add_no_overflow) (use ab assms(1,2) in \<open>simp add: s1\<close>)
  have lo: "unat (p AND 0xFFFFFFFF) = unat p mod 2 ^ 32"
  proof -
    have "p AND 0xFFFFFFFF = take_bit 32 p"
      unfolding ull_low_mask by (rule take_bit_eq_mask[symmetric])
    then have "unat (p AND 0xFFFFFFFF) = take_bit 32 (unat p)"
      by (simp only: unsigned_take_bit_eq)
    then show ?thesis by (simp add: take_bit_eq_mod)
  qed
  have hi: "unat (drop_bit 32 p) = unat p div 2 ^ 32"
    by (rule unat_drop_bit_div)
  show "unat (p AND 0xFFFFFFFF) + 2 ^ 32 * unat (drop_bit 32 p) = unat ai * unat bj + unat t + unat c"
    unfolding lo hi p[symmetric] by simp
  show "unat (p AND 0xFFFFFFFF) < 2 ^ 32"
    unfolding lo by simp
  have "unat p < 2 ^ 64" using unsigned_less[of p, where 'a = nat] by simp
  then show "unat (drop_bit 32 p) < 2 ^ 32"
    unfolding hi by simp
qed

text \<open>The inner loop: one row of the product, added into the buffer.\<close>

lemma mul_inner_val:
  "i + j + length bs \<le> length temp \<Longrightarrow> cells_ok temp \<Longrightarrow> unat carry < 2 ^ 32 \<Longrightarrow>
   cells_ok (fst (mul_inner ai bs i j carry temp)) \<and>
   unat (snd (mul_inner ai bs i j carry temp)) < 2 ^ 32 \<and>
   cells_val (fst (mul_inner ai bs i j carry temp)) +
     unat (snd (mul_inner ai bs i j carry temp)) * 2 ^ (32 * (i + j + length bs)) =
     cells_val temp + (unat ai * bigint_val bs + unat carry) * 2 ^ (32 * (i + j)) \<and>
   (\<forall>k. i + j + length bs \<le> k \<longrightarrow> fst (mul_inner ai bs i j carry temp) ! k = temp ! k)"
proof (induction bs arbitrary: j carry temp)
  case Nil
  then show ?case by simp
next
  case (Cons bj bs)
  define p where "p = ucast ai * ucast bj + temp ! (i + j) + carry"
  define temp1 where "temp1 = temp[i + j := p AND 0xFFFFFFFF]"
  define c1 where "c1 = drop_bit 32 p"
  have lt: "i + j < length temp" using Cons.prems(1) by simp
  have t: "unat (temp ! (i + j)) < 2 ^ 32" using cells_ok_nth[OF Cons.prems(2) lt] .
  note cell = mul_cell[OF t Cons.prems(3), of ai bj, folded p_def]
  have ok1: "cells_ok temp1" unfolding temp1_def
    by (rule cells_ok_update[OF Cons.prems(2) cell(2)])
  have c1: "unat c1 < 2 ^ 32" unfolding c1_def by (rule cell(3))
  have len1: "i + Suc j + length bs \<le> length temp1" using Cons.prems(1) by (simp add: temp1_def)
  note IH = Cons.IH[OF len1 ok1 c1]
  have e: "mul_inner ai (bj # bs) i j carry temp = mul_inner ai bs i (Suc j) c1 temp1"
    by (simp add: Let_def p_def temp1_def c1_def)
  have upd: "cells_val temp1 + unat (temp ! (i + j)) * 2 ^ (32 * (i + j)) =
             cells_val temp + unat (p AND 0xFFFFFFFF) * 2 ^ (32 * (i + j))"
    unfolding temp1_def by (rule cells_val_update[OF lt])
  let ?R = "mul_inner ai bs i (Suc j) c1 temp1"
  let ?X = "(2::nat) ^ (32 * (i + j))"
  have v: "cells_val (fst ?R) + unat (snd ?R) * 2 ^ (32 * (i + Suc j + length bs)) =
           cells_val temp1 + (unat ai * bigint_val bs + unat c1) * 2 ^ (32 * (i + Suc j))"
    using IH by simp
  have X: "(2::nat) ^ (32 * (i + Suc j)) = 2 ^ 32 * ?X" by (simp add: power_add)
  have "cells_val (fst ?R) + unat (snd ?R) * 2 ^ (32 * (i + Suc j + length bs)) +
          unat (temp ! (i + j)) * ?X =
        cells_val temp + unat (p AND 0xFFFFFFFF) * ?X +
          (unat ai * bigint_val bs + unat c1) * (2 ^ 32 * ?X)"
    unfolding v X using upd by simp
  also have "\<dots> = cells_val temp +
      (unat (p AND 0xFFFFFFFF) + 2 ^ 32 * unat c1) * ?X + unat ai * bigint_val bs * 2 ^ 32 * ?X"
    by (simp add: algebra_simps)
  also have "unat (p AND 0xFFFFFFFF) + 2 ^ 32 * unat c1 =
      unat ai * unat bj + unat (temp ! (i + j)) + unat carry"
    unfolding c1_def by (rule cell(1))
  finally have "cells_val (fst ?R) + unat (snd ?R) * 2 ^ (32 * (i + Suc j + length bs)) =
      cells_val temp + (unat ai * bigint_val (bj # bs) + unat carry) * ?X"
    by (simp add: algebra_simps)
  moreover have "\<forall>k. i + j + length (bj # bs) \<le> k \<longrightarrow> fst ?R ! k = temp ! k"
  proof (intro allI impI)
    fix k assume k: "i + j + length (bj # bs) \<le> k"
    then have "fst ?R ! k = temp1 ! k" using IH by simp
    also have "\<dots> = temp ! k" using k by (simp add: temp1_def)
    finally show "fst ?R ! k = temp ! k" .
  qed
  ultimately show ?case
    unfolding e using IH by simp
qed

text \<open>The outer loop: all rows.\<close>

lemma mul_outer_val:
  "length b = WORDS_COUNT \<Longrightarrow> i + length as = WORDS_COUNT \<Longrightarrow>
   length temp = WORDS_COUNT * 2 \<Longrightarrow> cells_ok temp \<Longrightarrow>
   (\<forall>k. i + WORDS_COUNT \<le> k \<longrightarrow> k < WORDS_COUNT * 2 \<longrightarrow> temp ! k = 0) \<Longrightarrow>
   cells_ok (mul_outer as b i temp) \<and>
   cells_val (mul_outer as b i temp) =
     cells_val temp + bigint_val as * bigint_val b * 2 ^ (32 * i)"
proof (induction as arbitrary: i temp)
  case Nil
  then show ?case by simp
next
  case (Cons ai as)
  define temp1 where "temp1 = fst (mul_inner ai b i 0 0 temp)"
  define carry where "carry = snd (mul_inner ai b i 0 0 temp)"
  define temp2 where "temp2 = temp1[i + WORDS_COUNT := carry]"
  have iW: "i + WORDS_COUNT < WORDS_COUNT * 2" using Cons.prems(2) by simp
  have len: "i + 0 + length b \<le> length temp" using Cons.prems(1,3) iW by simp
  have inner: "cells_ok temp1" "unat carry < 2 ^ 32"
    "cells_val temp1 + unat carry * 2 ^ (32 * (i + WORDS_COUNT)) =
       cells_val temp + unat ai * bigint_val b * 2 ^ (32 * i)"
    "\<forall>k. i + WORDS_COUNT \<le> k \<longrightarrow> temp1 ! k = temp ! k"
    using mul_inner_val[OF len Cons.prems(4), of 0 ai] Cons.prems(1)
    by (simp_all add: temp1_def carry_def)
  have l1: "length temp1 = WORDS_COUNT * 2" by (simp add: temp1_def Cons.prems(3))
  have z: "temp1 ! (i + WORDS_COUNT) = 0"
    using inner(4) Cons.prems(5) iW by simp
  have e: "mul_outer (ai # as) b i temp = mul_outer as b (Suc i) temp2"
    using iW by (simp add: Let_def split_beta temp1_def carry_def temp2_def)
  have ok2: "cells_ok temp2" unfolding temp2_def
    by (rule cells_ok_update[OF inner(1,2)])
  have v2: "cells_val temp2 = cells_val temp + unat ai * bigint_val b * 2 ^ (32 * i)"
  proof -
    have "cells_val temp2 + unat (temp1 ! (i + WORDS_COUNT)) * 2 ^ (32 * (i + WORDS_COUNT)) =
        cells_val temp1 + unat carry * 2 ^ (32 * (i + WORDS_COUNT))"
      unfolding temp2_def by (rule cells_val_update) (use iW l1 in simp)
    then show ?thesis using z inner(3) by simp
  qed
  have z2: "\<forall>k. Suc i + WORDS_COUNT \<le> k \<longrightarrow> k < WORDS_COUNT * 2 \<longrightarrow> temp2 ! k = 0"
  proof (intro allI impI)
    fix k assume k: "Suc i + WORDS_COUNT \<le> k" "k < WORDS_COUNT * 2"
    then have "temp2 ! k = temp1 ! k" by (simp add: temp2_def)
    also have "\<dots> = temp ! k" using inner(4) k by simp
    also have "\<dots> = 0" using Cons.prems(5) k by simp
    finally show "temp2 ! k = 0" .
  qed
  have l2: "length temp2 = WORDS_COUNT * 2" by (simp add: temp2_def l1)
  have "Suc i + length as = WORDS_COUNT" using Cons.prems(2) by simp
  from Cons.IH[OF Cons.prems(1) this l2 ok2 z2]
  have "cells_ok (mul_outer as b (Suc i) temp2)"
    "cells_val (mul_outer as b (Suc i) temp2) =
       cells_val temp2 + bigint_val as * bigint_val b * 2 ^ (32 * Suc i)"
    by simp_all
  then show ?case
    unfolding e v2 by (simp add: power_add algebra_simps)
qed

lemma unat_ucast_ull_u32: "unat (c :: ull) < 2 ^ 32 \<Longrightarrow> unat (ucast c :: u32) = unat c"
proof -
  assume c: "unat c < 2 ^ 32"
  have "unat (ucast c :: u32) = take_bit LENGTH(32) (unat c)"
    by (rule unsigned_ucast_eq)
  also have "\<dots> = unat c" using c by (simp add: take_bit_eq_mod)
  finally show ?thesis .
qed

lemma bigint_val_map_ucast: "cells_ok t \<Longrightarrow> bigint_val (map ucast t) = cells_val t"
  by (induction t) (simp_all add: cells_ok_def unat_ucast_ull_u32)

lemma cells_ok_take: "cells_ok t \<Longrightarrow> cells_ok (take k t)"
  unfolding cells_ok_def list_all_iff by (auto dest: in_set_takeD)

lemma cells_val_take:
  assumes "cells_ok t" "k \<le> length t"
  shows "cells_val (take k t) = cells_val t mod 2 ^ (32 * k)"
proof -
  have "cells_val (take k t @ drop k t) =
      cells_val (take k t) + 2 ^ (32 * length (take k t)) * cells_val (drop k t)"
    by (rule cells_val_append)
  then have "cells_val t = cells_val (take k t) + 2 ^ (32 * k) * cells_val (drop k t)"
    using assms(2) by (simp add: min_def)
  then have "cells_val t mod 2 ^ (32 * k) = cells_val (take k t) mod 2 ^ (32 * k)"
    by simp
  moreover have "cells_val (take k t) < 2 ^ (32 * k)"
    using cells_val_less[OF cells_ok_take[OF assms(1)], of k] assms(2) by (simp add: min_absorb2)
  ultimately show ?thesis by simp
qed

theorem bigint_mul_val:
  assumes "length a = WORDS_COUNT" "length b = WORDS_COUNT"
  shows "bigint_val (bigint_mul a b) = (bigint_val a * bigint_val b) mod 2 ^ (32 * WORDS_COUNT)"
proof -
  let ?z = "replicate (WORDS_COUNT * 2) (0 :: ull)"
  let ?t = "mul_outer a b 0 ?z"
  have ok0: "cells_ok ?z" by (simp add: cells_ok_def list_all_iff)
  have "cells_ok ?t \<and> cells_val ?t = cells_val ?z + bigint_val a * bigint_val b * 2 ^ (32 * 0)"
    by (rule mul_outer_val[OF assms(2) _ _ ok0]) (use assms(1) in simp_all)
  then have ok: "cells_ok ?t" and v: "cells_val ?t = bigint_val a * bigint_val b"
    by simp_all
  have "bigint_val (bigint_mul a b) = cells_val (take WORDS_COUNT ?t)"
    unfolding bigint_mul_def by (rule bigint_val_map_ucast[OF cells_ok_take[OF ok]])
  also have "\<dots> = cells_val ?t mod 2 ^ (32 * WORDS_COUNT)"
    by (rule cells_val_take[OF ok]) simp
  finally show ?thesis unfolding v .
qed

subsection \<open>Where the 1024-bit modular layer is exact\<close>

text \<open>
  When the product of the operands fits into 1023 bits, the truncation in
  \<open>bigint_mul\<close> loses nothing and the reduction loop of \<open>bigint_mod_mul\<close> comes
  to an end.
\<close>

lemma bigint_mod_mul_val:
  assumes "length a = WORDS_COUNT" "length b = WORDS_COUNT" "length n = WORDS_COUNT"
    and "0 < bigint_val n" and "bigint_val a * bigint_val b < 2 ^ (32 * WORDS_COUNT - 1)"
  shows "\<exists>c. bigint_mod_mul a b n = Some c \<and>
           bigint_val c = (bigint_val a * bigint_val b) mod bigint_val n \<and>
           length c = WORDS_COUNT"
proof -
  have "(2::nat) ^ (32 * WORDS_COUNT - 1) \<le> 2 ^ (32 * WORDS_COUNT)"
    by (rule power_increasing) simp_all
  then have "bigint_val a * bigint_val b < 2 ^ (32 * WORDS_COUNT)"
    by (rule less_le_trans[OF assms(5)])
  then have v: "bigint_val (bigint_mul a b) = bigint_val a * bigint_val b"
    by (simp add: bigint_mul_val[OF assms(1,2)])
  from bigint_mod_mul_reduces[OF assms(3,4), of a b] assms(5) show ?thesis
    by (simp add: v)
qed

lemma bigint_odd_val: "e \<noteq> [] \<Longrightarrow> (e ! 0) AND 1 \<noteq> 0 \<longleftrightarrow> odd (bigint_val e)"
  using bigint_is_even_val[of e] by (simp add: bigint_is_even_def)

lemma square_and_multiply_step:
  fixes r b e m :: nat
  assumes "0 < e"
  shows "(((if odd e then (r * b) mod m else r) * ((b * b) mod m) ^ (e div 2)) mod m) =
    (r * b ^ e) mod m"
proof -
  have e: "e = 2 * (e div 2) + (if odd e then 1 else 0)" by presburger
  have "(b * b) ^ (e div 2) = b ^ (2 * (e div 2))"
    by (simp add: power_mult power2_eq_square)
  then have p: "b ^ e = (if odd e then b else 1) * (b * b) ^ (e div 2)"
    by (subst e) (simp add: power_add)
  have h: "(x * ((b * b) mod m) ^ (e div 2)) mod m = (x * (b * b) ^ (e div 2)) mod m" for x
    by (metis mod_mult_right_eq power_mod)
  have "((if odd e then (r * b) mod m else r) * ((b * b) mod m) ^ (e div 2)) mod m =
      ((if odd e then (r * b) mod m else r) * (b * b) ^ (e div 2)) mod m"
    by (rule h)
  also have "\<dots> = ((if odd e then r * b else r) * (b * b) ^ (e div 2)) mod m"
    by (simp add: mod_mult_left_eq)
  also have "\<dots> = (r * b ^ e) mod m"
    by (simp add: p mult.assoc)
  finally show ?thesis .
qed

lemma mod_exp_loop_val:
  assumes "length m = WORDS_COUNT" and "0 < bigint_val m" and "bigint_val m \<le> 2 ^ 511"
  shows "length result = WORDS_COUNT \<Longrightarrow> length b = WORDS_COUNT \<Longrightarrow> length e = WORDS_COUNT \<Longrightarrow>
    bigint_val result < bigint_val m \<Longrightarrow> bigint_val b < 2 ^ 511 \<Longrightarrow>
    \<exists>c. mod_exp_loop result b e m = Some c \<and>
        bigint_val c = (bigint_val result * bigint_val b ^ bigint_val e) mod bigint_val m \<and>
        length c = WORDS_COUNT"
proof (induction "bigint_val e" arbitrary: result b e rule: less_induct)
  case less
  show ?case
  proof (cases "bigint_val e = 0")
    case True
    then have "bigint_is_zero e" by (simp add: bigint_is_zero_val)
    then have "mod_exp_loop result b e m = Some result"
      by (subst mod_exp_loop.simps) simp
    with True less.prems show ?thesis by simp
  next
    case False
    then have nz: "\<not> bigint_is_zero e" by (simp add: bigint_is_zero_val)
    from less.prems(3) have ne: "e \<noteq> []" by (auto simp: WORDS_COUNT_def)
    have bound: "(2::nat) ^ 511 * 2 ^ 511 \<le> 2 ^ (32 * WORDS_COUNT - 1)"
      by (simp add: WORDS_COUNT_def)
    have rb: "bigint_val result * bigint_val b < 2 ^ (32 * WORDS_COUNT - 1)"
    proof -
      have "bigint_val result < 2 ^ 511" using less.prems(4) assms(3) by simp
      then have "bigint_val result * bigint_val b < 2 ^ 511 * 2 ^ 511"
        using less.prems(5) by (intro mult_strict_mono) simp_all
      with bound show ?thesis by simp
    qed
    have bb: "bigint_val b * bigint_val b < 2 ^ (32 * WORDS_COUNT - 1)"
    proof -
      have "bigint_val b * bigint_val b < 2 ^ 511 * 2 ^ 511"
        using less.prems(5) by (intro mult_strict_mono) simp_all
      with bound show ?thesis by simp
    qed
    obtain r1 where r1: "(if (e ! 0) AND 1 \<noteq> 0 then bigint_mod_mul result b m else Some result) = Some r1"
      "bigint_val r1 = (if odd (bigint_val e) then (bigint_val result * bigint_val b) mod bigint_val m
         else bigint_val result)"
      "length r1 = WORDS_COUNT"
    proof (cases "odd (bigint_val e)")
      case True
      from bigint_mod_mul_val[OF less.prems(1,2) assms(1,2) rb] obtain c where
        "bigint_mod_mul result b m = Some c"
        "bigint_val c = (bigint_val result * bigint_val b) mod bigint_val m" "length c = WORDS_COUNT"
        by blast
      with True that[of c] show ?thesis by (simp add: bigint_odd_val[OF ne])
    next
      case False
      with that[of result] less.prems(1) show ?thesis by (simp add: bigint_odd_val[OF ne])
    qed
    from bigint_mod_mul_val[OF less.prems(2,2) assms(1,2) bb] obtain b1 where
      b1: "bigint_mod_mul b b m = Some b1"
        "bigint_val b1 = (bigint_val b * bigint_val b) mod bigint_val m" "length b1 = WORDS_COUNT"
      by blast
    have r1m: "bigint_val r1 < bigint_val m"
      using r1(2) less.prems(4) assms(2) by simp
    have b1m: "bigint_val b1 < 2 ^ 511"
    proof -
      have "bigint_val b1 < bigint_val m" using b1(2) assms(2) by simp
      with assms(3) show ?thesis by simp
    qed
    have dec: "bigint_val (bigint_shr_one e) < bigint_val e"
      using False by (simp add: bigint_shr_one_val)
    have le: "length (bigint_shr_one e) = WORDS_COUNT" using less.prems(3) by simp
    from less.hyps[OF dec r1(3) b1(3) le r1m b1m] obtain c where
      c: "mod_exp_loop r1 b1 (bigint_shr_one e) m = Some c"
        "bigint_val c = (bigint_val r1 * bigint_val b1 ^ bigint_val (bigint_shr_one e)) mod bigint_val m"
        "length c = WORDS_COUNT"
      by blast
    have run: "mod_exp_loop result b e m = Some c"
      by (subst mod_exp_loop.simps) (simp add: nz r1(1) b1(1) c(1))
    have "bigint_val c = (bigint_val result * bigint_val b ^ bigint_val e) mod bigint_val m"
      unfolding c(2) r1(2) b1(2) bigint_shr_one_val
      using False by (intro square_and_multiply_step) simp
    with run c(3) show ?thesis by simp
  qed
qed

lemma bigint_mod_exp_val:
  assumes "length m = WORDS_COUNT" and "1 < bigint_val m" and "bigint_val m \<le> 2 ^ 511"
    and "length base = WORDS_COUNT" and "length e = WORDS_COUNT" and "bigint_val base < 2 ^ 511"
  shows "\<exists>c. bigint_mod_exp base e m = Some c \<and>
        bigint_val c = (bigint_val base ^ bigint_val e) mod bigint_val m \<and>
        length c = WORDS_COUNT"
proof -
  from assms(2) have m0: "0 < bigint_val m" by simp
  from mod_exp_loop_val[OF assms(1) m0 assms(3) _ assms(4,5) _ assms(6), of "bigint_set_u32 1"]
    assms(2)
  show ?thesis by (simp add: bigint_mod_exp_def)
qed

section \<open>The claims about the witness test and the modular layer\<close>

lemma word_mod_mod: "(a :: 'a::len word) mod m mod m = a mod m"
  by (simp add: word_unat_eq_iff unat_mod)

lemma powmod_reduces_base: "powmod (a mod m) e m = powmod a e m"
  by (simp add: powmod_def word_mod_mod)

lemma miller_rabin_witness_reduces_base:
  "n \<noteq> 0 \<Longrightarrow> miller_rabin_witness n (a mod n) = miller_rabin_witness n a"
  by (simp add: miller_rabin_witness_def powmod_reduces_base word_mod_mod)

lemma miller_rabin_witness_1024_reduction:
  assumes "length n = WORDS_COUNT" "length a = WORDS_COUNT"
    and "0 < bigint_val n" "bigint_val n \<le> bigint_val a"
  shows "\<exists>t. subtract_while_gte a n = Some t \<and> length t = WORDS_COUNT \<and>
           bigint_val t = bigint_val a mod bigint_val n \<and>
           miller_rabin_witness_1024 n a =
             (if bigint_val t = 0 then Some (1, a) else witness_after_reduction n t)"
proof -
  from subtract_while_gte_val[of a n] assms obtain t where
    t: "subtract_while_gte a n = Some t" "bigint_val t = bigint_val a mod bigint_val n"
       "length t = WORDS_COUNT"
    by auto
  have "bigint_compare a n \<ge> 0"
    using assms by (simp add: bigint_compare_ge)
  then have "miller_rabin_witness_1024 n a =
      (if bigint_val t = 0 then Some (1, a) else witness_after_reduction n t)"
    by (simp add: miller_rabin_witness_1024_def t(1) bigint_is_zero_val)
  with t show ?thesis by blast
qed

text \<open>
  Claim C7. When the base \<open>a\<close> is not below the modulus \<open>n\<close>, the witness test works
  on \<open>a mod n\<close>, and it returns "pass" when that residue is zero. The modulus is
  positive: reduction modulo zero is not defined, and on \<open>n = 0\<close> the native-width
  test divides by zero and the 1024-bit test subtracts zero forever.
  In the native-width test the reduction is the one that \<open>powmod\<close> applies to its
  base; in the 1024-bit test it is the loop of subtractions, whose result \<open>t\<close> is
  the base of everything that follows.
\<close>

theorem witness_reduces_base:
  "(n \<noteq> 0 \<and> n \<le> a \<longrightarrow>
      miller_rabin_witness n a = miller_rabin_witness n (a mod n) \<and>
      (a mod n = 0 \<longrightarrow> miller_rabin_witness n a = Some 1)) \<and>
   (length N = WORDS_COUNT \<and> length A = WORDS_COUNT \<and>
    0 < bigint_val N \<and> bigint_val N \<le> bigint_val A \<longrightarrow>
      (\<exists>t. subtract_while_gte A N = Some t \<and> length t = WORDS_COUNT \<and>
           bigint_val t = bigint_val A mod bigint_val N \<and>
           miller_rabin_witness_1024 N A =
             (if bigint_val t = 0 then Some (1, A) else witness_after_reduction N t)))"
proof (intro conjI impI)
  assume "n \<noteq> 0 \<and> n \<le> a"
  then show "miller_rabin_witness n a = miller_rabin_witness n (a mod n)"
    by (simp add: miller_rabin_witness_reduces_base)
next
  assume "n \<noteq> 0 \<and> n \<le> a" "a mod n = 0"
  then show "miller_rabin_witness n a = Some 1"
    by (simp add: miller_rabin_witness_def)
next
  assume "length N = WORDS_COUNT \<and> length A = WORDS_COUNT \<and>
    0 < bigint_val N \<and> bigint_val N \<le> bigint_val A"
  then show "\<exists>t. subtract_while_gte A N = Some t \<and> length t = WORDS_COUNT \<and>
           bigint_val t = bigint_val A mod bigint_val N \<and>
           miller_rabin_witness_1024 N A =
             (if bigint_val t = 0 then Some (1, A) else witness_after_reduction N t)"
    using miller_rabin_witness_1024_reduction[of N A] by blast
qed

theorem witness_reduces_base_witness:
  "(5 :: ull) \<noteq> 0 \<and> (5 :: ull) \<le> 10 \<and> (10 :: ull) mod 5 = 0 \<and>
   miller_rabin_witness 5 10 = Some 1 \<and>
   length (bigint_set_u32 5) = WORDS_COUNT \<and> length (bigint_set_u32 10) = WORDS_COUNT \<and>
   0 < bigint_val (bigint_set_u32 5) \<and>
   bigint_val (bigint_set_u32 5) \<le> bigint_val (bigint_set_u32 10) \<and>
   miller_rabin_witness_1024 (bigint_set_u32 5) (bigint_set_u32 10) =
     Some (1, bigint_set_u32 10)"
proof -
  have h1: "(5 :: ull) \<noteq> 0 \<and> (5 :: ull) \<le> 10" by simp
  have h2: "(10 :: ull) mod 5 = 0" by simp
  have h3: "length (bigint_set_u32 5) = WORDS_COUNT \<and> length (bigint_set_u32 10) = WORDS_COUNT \<and>
    0 < bigint_val (bigint_set_u32 5) \<and>
    bigint_val (bigint_set_u32 5) \<le> bigint_val (bigint_set_u32 10)"
    by simp
  from witness_reduces_base[of 5 10 "bigint_set_u32 5" "bigint_set_u32 10"] h1 h2
  have a: "miller_rabin_witness 5 10 = Some 1" by blast
  from witness_reduces_base[of 5 10 "bigint_set_u32 5" "bigint_set_u32 10"] h3
  obtain t where "bigint_val t = bigint_val (bigint_set_u32 10) mod bigint_val (bigint_set_u32 5)"
    "miller_rabin_witness_1024 (bigint_set_u32 5) (bigint_set_u32 10) =
       (if bigint_val t = 0 then Some (1, bigint_set_u32 10)
        else witness_after_reduction (bigint_set_u32 5) t)"
    by blast
  then have b: "miller_rabin_witness_1024 (bigint_set_u32 5) (bigint_set_u32 10) =
     Some (1, bigint_set_u32 10)"
    by simp
  from h1 h2 h3 a b show ?thesis by blast
qed

section \<open>The candidate generator\<close>

lemma rand_ull_less: "mx \<noteq> 0 \<Longrightarrow> fst (rand_ull mx g) < mx"
  by (simp add: rand_ull_def Let_def split_beta word_mod_less)

lemma unat_push_bit_1_ull: "k < 64 \<Longrightarrow> unat (push_bit k (1 :: ull)) = 2 ^ k"
proof -
  assume k: "k < 64"
  have "unat (push_bit k (1 :: ull)) = take_bit LENGTH(64) (push_bit k (unat (1 :: ull)))"
    by (rule unsigned_push_bit_eq)
  also have "\<dots> = (2 ^ k) mod 2 ^ 64"
    by (simp add: push_bit_eq_mult take_bit_eq_mod)
  also have "\<dots> = 2 ^ k"
  proof -
    have "(2 :: nat) ^ k < 2 ^ 64" using k by (intro power_strict_increasing) simp_all
    then show ?thesis by simp
  qed
  finally show ?thesis .
qed

lemma nat_or_1: "(n :: nat) OR 1 = (if even n then n + 1 else n)"
  using or_one_eq[of n] by (cases "even n") simp_all

lemma unat_or_1: "unat (r OR 1 :: 'a::len word) = (if even (unat r) then unat r + 1 else unat r)"
proof -
  have "unat (r OR 1) = unat r OR unat (1 :: 'a word)" by (rule unsigned_or_eq)
  also have "\<dots> = unat r OR 1" by simp
  also note nat_or_1
  finally show ?thesis .
qed

lemma gen_random_odd_range:
  assumes "2 \<le> bits" "bits \<le> 63"
  shows "\<exists>r g'. gen_random_odd bits g = Some (r, g') \<and>
           2 ^ nat (bits - 1) \<le> unat r \<and> unat r < 2 ^ nat bits \<and> odd (unat r)"
proof -
  define k where "k = nat (bits - 1)"
  have k: "1 \<le> k" "k \<le> 62" "nat bits = Suc k" using assms by (simp_all add: k_def)
  define high where "high = push_bit k (1 :: ull)"
  define range where "range = push_bit (Suc k) (1 :: ull) - high"
  define r0 where "r0 = fst (rand_ull range g)"
  define r where "r = r0 + high"
  have uh: "unat high = 2 ^ k" unfolding high_def using k by (intro unat_push_bit_1_ull) simp
  have ut: "unat (push_bit (Suc k) (1 :: ull)) = 2 ^ Suc k"
    using k by (intro unat_push_bit_1_ull) simp
  have "high \<le> push_bit (Suc k) (1 :: ull)"
    unfolding word_le_nat_alt uh ut by simp
  then have "unat range = unat (push_bit (Suc k) (1 :: ull)) - unat high"
    unfolding range_def by (rule unat_sub)
  then have ur: "unat range = 2 ^ k" unfolding uh ut by simp
  then have "range \<noteq> 0" by (metis power_not_zero unat_0 zero_neq_numeral)
  then have "r0 < range" unfolding r0_def by (rule rand_ull_less)
  then have u0: "unat r0 < 2 ^ k" unfolding word_less_nat_alt ur .
  have "(2 :: nat) ^ Suc k \<le> 2 ^ 63" using k by (intro power_increasing) simp_all
  then have "unat r0 + unat high < 2 ^ LENGTH(64)" using u0 unfolding uh by simp
  then have "unat r = unat r0 + unat high" unfolding r_def by (rule unat_add_no_overflow)
  then have u: "unat r = unat r0 + 2 ^ k" unfolding uh .
  have lo: "2 ^ k \<le> unat r" using u by simp
  have hi: "unat r < 2 ^ Suc k" using u u0 by simp
  have nb: "nat bits = Suc (nat (bits - 1))" using assms by simp
  have res: "gen_random_odd bits g = Some (r OR 1, snd (rand_ull range g))"
    unfolding gen_random_odd_def Let_def split_beta r_def r0_def range_def high_def k_def nb
    using assms by simp
  have "2 ^ k \<le> unat (r OR 1)" using lo by (simp add: unat_or_1)
  moreover have "unat (r OR 1) < 2 ^ Suc k"
  proof (cases "even (unat r)")
    case True
    have "even ((2 :: nat) ^ Suc k)" by simp
    with True hi have "unat r + 1 < 2 ^ Suc k"
      by (metis Suc_eq_plus1 Suc_lessI even_Suc less_imp_le_nat order_le_less)
    with True show ?thesis by (simp add: unat_or_1)
  next
    case False
    with hi show ?thesis by (simp add: unat_or_1)
  qed
  moreover have "odd (unat (r OR 1))" by (simp add: unat_or_1)
  ultimately show ?thesis using res k(3) by (simp add: k_def)
qed

lemma length_rand_words [simp]: "length (fst (rand_words k g)) = k"
  by (induction k arbitrary: g) (simp_all add: Let_def split_beta)

lemma unat_or_ge: "unat (y :: 'a::len word) \<le> unat (x OR y)"
  using le_word_or2[of y x] by (simp add: word_le_nat_alt or.commute)

lemma bigint_val_top:
  assumes "length a = Suc n"
  shows "bigint_val a = bigint_val (take n a) + 2 ^ (32 * n) * unat (a ! n)"
proof -
  have "a = take n a @ [a ! n]"
    using assms by (metis lessI take_Suc_conv_app_nth take_all order_refl)
  then have "bigint_val a = bigint_val (take n a @ [a ! n])" by simp
  also have "\<dots> = bigint_val (take n a) + 2 ^ (32 * length (take n a)) * bigint_val [a ! n]"
    by (rule bigint_val_append)
  finally show ?thesis using assms by simp
qed

lemma bigint_rand_odd_1024_range:
  "length (fst (bigint_rand_odd_1024 g)) = WORDS_COUNT \<and>
   2 ^ (32 * WORDS_COUNT - 1) \<le> bigint_val (fst (bigint_rand_odd_1024 g)) \<and>
   bigint_val (fst (bigint_rand_odd_1024 g)) < 2 ^ (32 * WORDS_COUNT) \<and>
   odd (bigint_val (fst (bigint_rand_odd_1024 g)))"
proof -
  define a where "a = fst (bigint_rand g)"
  define a1 where "a1 = a[WORDS_COUNT - 1 := a ! (WORDS_COUNT - 1) OR 0x80000000]"
  define a2 where "a2 = a1[0 := a1 ! 0 OR 1]"
  have r: "fst (bigint_rand_odd_1024 g) = a2"
    by (simp add: bigint_rand_odd_1024_def Let_def split_beta a_def a1_def a2_def)
  have la: "length a = WORDS_COUNT" by (simp add: a_def bigint_rand_def)
  then have l2: "length a2 = WORDS_COUNT" by (simp add: a2_def a1_def)
  have l2': "length a2 = Suc 31" using l2 by (simp add: WORDS_COUNT_def)
  have top: "a2 ! 31 = a ! 31 OR 0x80000000"
    using la by (simp add: a2_def a1_def WORDS_COUNT_def)
  have "unat (0x80000000 :: u32) \<le> unat (a2 ! 31)"
    unfolding top by (rule unat_or_ge)
  then have "2 ^ 31 \<le> unat (a2 ! 31)" by simp
  then have "2 ^ (32 * 31) * 2 ^ 31 \<le> 2 ^ (32 * 31) * unat (a2 ! 31)"
    by (rule mult_le_mono2)
  also have "\<dots> \<le> bigint_val a2"
    unfolding bigint_val_top[OF l2'] by simp
  finally have lo: "2 ^ (32 * WORDS_COUNT - 1) \<le> bigint_val a2"
    by (simp add: WORDS_COUNT_def flip: power_add)
  have hi: "bigint_val a2 < 2 ^ (32 * WORDS_COUNT)"
    using bigint_val_less[of a2] l2 by simp
  obtain w ws where c: "a1 = w # ws"
    using la by (cases a1) (simp_all add: a1_def WORDS_COUNT_def)
  then have "a2 = (w OR 1) # ws" by (simp add: a2_def)
  then have "odd (bigint_val a2)" by (simp add: unat_or_1)
  with lo hi l2 show ?thesis unfolding r by simp
qed

text \<open>
  Claim C6, as amended. The native-width generator works on 64-bit words, and a shift
  by 64 or more positions has no defined result: it returns a value for the bit
  lengths from 2 to 63 only. For these, and for every state of the random source,
  the value has exactly the requested number of bits (its top bit is set) and is odd.
  The 1024-bit generator has no length parameter; for every state of the random source
  its value has exactly \<open>32 * WORDS_COUNT = 1024\<close> bits and is odd.
\<close>

theorem random_odd_has_top_and_bottom_bit:
  "(2 \<le> bits \<and> bits \<le> 63 \<longrightarrow>
      (\<exists>r g'. gen_random_odd bits g = Some (r, g') \<and>
         2 ^ nat (bits - 1) \<le> unat r \<and> unat r < 2 ^ nat bits \<and> odd (unat r))) \<and>
   length (fst (bigint_rand_odd_1024 g)) = WORDS_COUNT \<and>
   2 ^ (32 * WORDS_COUNT - 1) \<le> bigint_val (fst (bigint_rand_odd_1024 g)) \<and>
   bigint_val (fst (bigint_rand_odd_1024 g)) < 2 ^ (32 * WORDS_COUNT) \<and>
   odd (bigint_val (fst (bigint_rand_odd_1024 g)))"
  using gen_random_odd_range[of bits g] bigint_rand_odd_1024_range[of g] by blast

theorem random_odd_has_top_and_bottom_bit_witness:
  "(2 :: int) \<le> 30 \<and> (30 :: int) \<le> 63 \<and>
   (\<exists>r g'. gen_random_odd 30 \<lparr>outputs = (\<lambda>i. 0), pos = 0\<rparr> = Some (r, g') \<and>
      2 ^ nat (30 - 1) \<le> unat r \<and> unat r < 2 ^ nat 30 \<and> odd (unat r))"
  using random_odd_has_top_and_bottom_bit[of 30 "\<lparr>outputs = (\<lambda>i. 0), pos = 0\<rparr>"]
  by simp

text \<open>
  The claim as stated, for every bit length from 2 on, fails in the native-width
  generator: at 70 bits it has no result (and no 64-bit word is as large as \<open>2 ^ 69\<close>).
\<close>

theorem random_odd_counterexample:
  "gen_random_odd 70 \<lparr>outputs = (\<lambda>i. 0), pos = 0\<rparr> = None"
  by (simp add: gen_random_odd_def)

section \<open>The multi-round drivers\<close>

text \<open>
  The state of the random source after \<open>i\<close> rounds of the native-width driver (each
  round makes four calls of \<open>rand()\<close>), and the base that round \<open>i\<close> draws.
\<close>

definition round_state :: "prng \<Rightarrow> nat \<Rightarrow> prng" where
  "round_state g i = g\<lparr>pos := pos g + 4 * i\<rparr>"

definition round_base :: "ull \<Rightarrow> prng \<Rightarrow> nat \<Rightarrow> ull" where
  "round_base n g i = 2 + fst (rand_ull (n - 3) (round_state g i))"

definition witness_passes :: "ull \<Rightarrow> ull \<Rightarrow> bool" where
  "witness_passes n a = (\<exists>r. miller_rabin_witness n a = Some r \<and> r \<noteq> 0)"

definition witness_fails :: "ull \<Rightarrow> ull \<Rightarrow> bool" where
  "witness_fails n a = (miller_rabin_witness n a = Some 0)"

lemma rand_ull_state: "mx \<noteq> 0 \<Longrightarrow> snd (rand_ull mx g) = g\<lparr>pos := pos g + 4\<rparr>"
  by (simp add: rand_ull_def rand32_def rand_def Let_def split_beta)

lemma round_state_0 [simp]: "round_state g 0 = g"
  by (simp add: round_state_def)

lemma round_state_add: "round_state (round_state g a) b = round_state g (a + b)"
  by (simp add: round_state_def algebra_simps)

lemma round_state_1: "g\<lparr>pos := pos g + 4\<rparr> = round_state g (Suc 0)"
  by (simp add: round_state_def)

lemma round_base_shift: "round_base n (round_state g (Suc 0)) j = round_base n g (Suc j)"
  by (simp add: round_base_def round_state_add)

lemma mr_rounds_done: "\<not> i < k \<Longrightarrow> mr_rounds i k n g = Some (1, g)"
  by (subst mr_rounds.simps) simp

lemma mr_rounds_step:
  "i < k \<Longrightarrow> n - 3 \<noteq> 0 \<Longrightarrow>
   mr_rounds i k n g =
     miller_rabin_witness n (round_base n g 0) \<bind>
       (\<lambda>pass. if pass = 0 then Some (0, round_state g (Suc 0))
               else mr_rounds (i + 1) k n (round_state g (Suc 0)))"
  by (subst mr_rounds.simps)
     (simp add: Let_def split_beta round_base_def rand_ull_state round_state_1)

lemma mr_rounds_all_pass:
  "n - 3 \<noteq> 0 \<Longrightarrow> k - i = int m \<Longrightarrow> (\<And>j. j < m \<Longrightarrow> witness_passes n (round_base n g j)) \<Longrightarrow>
   mr_rounds i k n g = Some (1, round_state g m)"
proof (induction m arbitrary: i g)
  case 0
  then show ?case by (simp add: mr_rounds_done)
next
  case (Suc m)
  from Suc.prems(2) have ik: "i < k" and km: "k - (i + 1) = int m" by simp_all
  from Suc.prems(3)[of 0] obtain r where r: "miller_rabin_witness n (round_base n g 0) = Some r" "r \<noteq> 0"
    by (auto simp: witness_passes_def)
  have "mr_rounds (i + 1) k n (round_state g (Suc 0)) = Some (1, round_state (round_state g (Suc 0)) m)"
  proof (rule Suc.IH[OF Suc.prems(1) km])
    fix j assume "j < m"
    then show "witness_passes n (round_base n (round_state g (Suc 0)) j)"
      using Suc.prems(3)[of "Suc j"] by (simp add: round_base_shift)
  qed
  then show ?case
    by (simp add: mr_rounds_step[OF ik Suc.prems(1)] r round_state_add)
qed

lemma mr_rounds_first_failure:
  "n - 3 \<noteq> 0 \<Longrightarrow> int j < k - i \<Longrightarrow> (\<And>q. q < j \<Longrightarrow> witness_passes n (round_base n g q)) \<Longrightarrow>
   witness_fails n (round_base n g j) \<Longrightarrow>
   mr_rounds i k n g = Some (0, round_state g (Suc j))"
proof (induction j arbitrary: i g)
  case 0
  then have ik: "i < k" by simp
  from 0 show ?case
    by (simp add: mr_rounds_step[OF ik "0.prems"(1)] witness_fails_def)
next
  case (Suc j)
  from Suc.prems(2) have ik: "i < k" and km: "int j < k - (i + 1)" by simp_all
  from Suc.prems(3)[of 0] obtain r where r: "miller_rabin_witness n (round_base n g 0) = Some r" "r \<noteq> 0"
    by (auto simp: witness_passes_def)
  have "mr_rounds (i + 1) k n (round_state g (Suc 0)) = Some (0, round_state (round_state g (Suc 0)) (Suc j))"
  proof (rule Suc.IH[OF Suc.prems(1) km])
    fix q assume "q < j"
    then show "witness_passes n (round_base n (round_state g (Suc 0)) q)"
      using Suc.prems(3)[of "Suc q"] by (simp add: round_base_shift)
  next
    show "witness_fails n (round_base n (round_state g (Suc 0)) j)"
      using Suc.prems(4) by (simp add: round_base_shift)
  qed
  then show ?case
    by (simp add: mr_rounds_step[OF ik Suc.prems(1)] r round_state_add)
qed

lemma mr_rounds_probably_prime_only_if:
  "n - 3 \<noteq> 0 \<Longrightarrow> k - i = int m \<Longrightarrow> mr_rounds i k n g = Some (1, g') \<Longrightarrow> j < m \<Longrightarrow>
   witness_passes n (round_base n g j)"
proof (induction m arbitrary: i g j)
  case 0
  then show ?case by simp
next
  case (Suc m)
  from Suc.prems(2) have ik: "i < k" and km: "k - (i + 1) = int m" by simp_all
  from Suc.prems(3) obtain r where
    r: "miller_rabin_witness n (round_base n g 0) = Some r" "r \<noteq> 0"
    and rec: "mr_rounds (i + 1) k n (round_state g (Suc 0)) = Some (1, g')"
    by (auto simp: mr_rounds_step[OF ik Suc.prems(1)] split: bind_splits if_splits)
  show ?case
  proof (cases j)
    case 0
    with r show ?thesis by (auto simp: witness_passes_def)
  next
    case (Suc q)
    with Suc.prems(4) have "q < m" by simp
    from Suc.IH[OF Suc.prems(1) km rec this] show ?thesis
      by (simp add: round_base_shift Suc)
  qed
qed

text \<open>The printing driver runs all rounds.\<close>

lemma mr_rounds_print_done: "\<not> i < k \<Longrightarrow> mr_rounds_print i k n ap g out = Some (ap, g, out)"
  by (subst mr_rounds_print.simps) simp

lemma mr_rounds_print_step:
  "i < k \<Longrightarrow> n - 3 \<noteq> 0 \<Longrightarrow> 4 < n \<Longrightarrow>
   mr_rounds_print i k n ap g out =
     miller_rabin_witness n (round_base n g 0) \<bind>
       (\<lambda>pass. mr_rounds_print (i + 1) k n (if pass = 0 then 0 else ap) (round_state g (Suc 0))
          (out @ [(i + 1, round_base n g 0, pass)]))"
  by (subst mr_rounds_print.simps)
     (simp add: Let_def split_beta round_base_def rand_ull_state round_state_1)

lemma mr_rounds_print_runs_all:
  "n - 3 \<noteq> 0 \<Longrightarrow> 4 < n \<Longrightarrow> k - i = int m \<Longrightarrow>
   (\<And>j. j < m \<Longrightarrow> miller_rabin_witness n (round_base n g j) \<noteq> None) \<Longrightarrow>
   \<exists>r lines. mr_rounds_print i k n ap g out = Some (r, round_state g m, out @ lines) \<and>
      length lines = m \<and>
      r = (if \<forall>j < m. witness_passes n (round_base n g j) then ap else 0)"
proof (induction m arbitrary: i g ap out)
  case 0
  then show ?case by (simp add: mr_rounds_print_done)
next
  case (Suc m)
  from Suc.prems(3) have ik: "i < k" and km: "k - (i + 1) = int m" by simp_all
  from Suc.prems(4)[of 0] obtain p where p: "miller_rabin_witness n (round_base n g 0) = Some p"
    by auto
  define ap' where "ap' = (if p = 0 then 0 else ap)"
  define out' where "out' = out @ [(i + 1, round_base n g 0, p)]"
  have "\<exists>r lines. mr_rounds_print (i + 1) k n ap' (round_state g (Suc 0)) out' =
      Some (r, round_state (round_state g (Suc 0)) m, out' @ lines) \<and> length lines = m \<and>
      r = (if \<forall>j < m. witness_passes n (round_base n (round_state g (Suc 0)) j) then ap' else 0)"
  proof (rule Suc.IH[OF Suc.prems(1,2) km])
    fix j assume "j < m"
    then show "miller_rabin_witness n (round_base n (round_state g (Suc 0)) j) \<noteq> None"
      using Suc.prems(4)[of "Suc j"] by (simp add: round_base_shift)
  qed
  then obtain r lines where
    rl: "mr_rounds_print (i + 1) k n ap' (round_state g (Suc 0)) out' =
           Some (r, round_state g (Suc m), out' @ lines)" "length lines = m"
        "r = (if \<forall>j < m. witness_passes n (round_base n g (Suc j)) then ap' else 0)"
    by (auto simp: round_state_add round_base_shift)
  have e: "mr_rounds_print i k n ap g out =
      Some (r, round_state g (Suc m), out @ ((i + 1, round_base n g 0, p) # lines))"
    using rl(1) by (simp add: mr_rounds_print_step[OF ik Suc.prems(1,2)] p ap'_def out'_def)
  have all: "(\<forall>j < Suc m. witness_passes n (round_base n g j)) \<longleftrightarrow>
      witness_passes n (round_base n g 0) \<and> (\<forall>j < m. witness_passes n (round_base n g (Suc j)))"
    by (auto simp: less_Suc_eq_0_disj)
  have p0: "witness_passes n (round_base n g 0) \<longleftrightarrow> p \<noteq> 0"
    by (simp add: witness_passes_def p)
  have "r = (if \<forall>j < Suc m. witness_passes n (round_base n g j) then ap else 0)"
    unfolding all p0 rl(3) ap'_def by auto
  with e rl(2) show ?case by (intro exI[of _ r] exI[of _ "(i + 1, round_base n g 0, p) # lines"]) simp
qed

text \<open>
  The same for the 1024-bit driver: each round fills \<open>WORDS_COUNT\<close> words with two
  calls of \<open>rand()\<close> each.
\<close>

definition round_state_1024 :: "prng \<Rightarrow> nat \<Rightarrow> prng" where
  "round_state_1024 g i = g\<lparr>pos := pos g + 2 * WORDS_COUNT * i\<rparr>"

definition witness_passes_1024 :: "bigint1024 \<Rightarrow> prng \<Rightarrow> nat \<Rightarrow> bool" where
  "witness_passes_1024 n g i =
    (\<exists>a g' r a'. bigint_rand_range n (round_state_1024 g i) = Some (a, g') \<and>
        miller_rabin_witness_1024 n a = Some (r, a') \<and> r \<noteq> 0)"

definition witness_fails_1024 :: "bigint1024 \<Rightarrow> prng \<Rightarrow> nat \<Rightarrow> bool" where
  "witness_fails_1024 n g i =
    (\<exists>a g' a'. bigint_rand_range n (round_state_1024 g i) = Some (a, g') \<and>
        miller_rabin_witness_1024 n a = Some (0, a'))"

lemma rand_words_state: "snd (rand_words k g) = g\<lparr>pos := pos g + 2 * k\<rparr>"
  by (induction k arbitrary: g) (simp_all add: Let_def split_beta rand_def)

lemma bigint_rand_range_state:
  "bigint_rand_range n g = Some (a, g') \<Longrightarrow> g' = round_state_1024 g (Suc 0)"
  by (auto simp: bigint_rand_range_def bigint_rand_def Let_def split_beta rand_words_state
      round_state_1024_def split: bind_splits)

lemma round_state_1024_0 [simp]: "round_state_1024 g 0 = g"
  by (simp add: round_state_1024_def)

lemma round_state_1024_add:
  "round_state_1024 (round_state_1024 g a) b = round_state_1024 g (a + b)"
  by (simp add: round_state_1024_def algebra_simps)

lemma witness_passes_1024_shift:
  "witness_passes_1024 n (round_state_1024 g (Suc 0)) j = witness_passes_1024 n g (Suc j)"
  by (simp add: witness_passes_1024_def round_state_1024_add)

lemma witness_fails_1024_shift:
  "witness_fails_1024 n (round_state_1024 g (Suc 0)) j = witness_fails_1024 n g (Suc j)"
  by (simp add: witness_fails_1024_def round_state_1024_add)

lemma mr_rounds_1024_done: "\<not> i < k \<Longrightarrow> mr_rounds_1024 i k n g = Some (1, g)"
  by (subst mr_rounds_1024.simps) simp

lemma mr_rounds_1024_pass:
  "i < k \<Longrightarrow> witness_passes_1024 n g 0 \<Longrightarrow>
   mr_rounds_1024 i k n g = mr_rounds_1024 (i + 1) k n (round_state_1024 g (Suc 0))"
  by (subst mr_rounds_1024.simps)
     (auto simp: witness_passes_1024_def dest: bigint_rand_range_state)

lemma mr_rounds_1024_fail:
  "i < k \<Longrightarrow> witness_fails_1024 n g 0 \<Longrightarrow>
   mr_rounds_1024 i k n g = Some (0, round_state_1024 g (Suc 0))"
  by (subst mr_rounds_1024.simps)
     (auto simp: witness_fails_1024_def dest: bigint_rand_range_state)

lemma mr_rounds_1024_all_pass:
  "k - i = int m \<Longrightarrow> (\<And>j. j < m \<Longrightarrow> witness_passes_1024 n g j) \<Longrightarrow>
   mr_rounds_1024 i k n g = Some (1, round_state_1024 g m)"
proof (induction m arbitrary: i g)
  case 0
  then show ?case by (simp add: mr_rounds_1024_done)
next
  case (Suc m)
  from Suc.prems(1) have ik: "i < k" and km: "k - (i + 1) = int m" by simp_all
  have "mr_rounds_1024 (i + 1) k n (round_state_1024 g (Suc 0)) =
      Some (1, round_state_1024 (round_state_1024 g (Suc 0)) m)"
  proof (rule Suc.IH[OF km])
    fix j assume "j < m"
    then show "witness_passes_1024 n (round_state_1024 g (Suc 0)) j"
      using Suc.prems(2)[of "Suc j"] by (simp add: witness_passes_1024_shift)
  qed
  then show ?case
    using Suc.prems(2)[of 0] by (simp add: mr_rounds_1024_pass[OF ik] round_state_1024_add)
qed

lemma mr_rounds_1024_first_failure:
  "int j < k - i \<Longrightarrow> (\<And>q. q < j \<Longrightarrow> witness_passes_1024 n g q) \<Longrightarrow>
   witness_fails_1024 n g j \<Longrightarrow>
   mr_rounds_1024 i k n g = Some (0, round_state_1024 g (Suc j))"
proof (induction j arbitrary: i g)
  case 0
  then have ik: "i < k" by simp
  from 0 show ?case
    by (simp add: mr_rounds_1024_fail[OF ik])
next
  case (Suc j)
  from Suc.prems(1) have ik: "i < k" and km: "int j < k - (i + 1)" by simp_all
  have "mr_rounds_1024 (i + 1) k n (round_state_1024 g (Suc 0)) =
      Some (0, round_state_1024 (round_state_1024 g (Suc 0)) (Suc j))"
  proof (rule Suc.IH[OF km])
    fix q assume "q < j"
    then show "witness_passes_1024 n (round_state_1024 g (Suc 0)) q"
      using Suc.prems(2)[of "Suc q"] by (simp add: witness_passes_1024_shift)
  next
    show "witness_fails_1024 n (round_state_1024 g (Suc 0)) j"
      using Suc.prems(3) by (simp add: witness_fails_1024_shift)
  qed
  then show ?case
    using Suc.prems(2)[of 0] by (simp add: mr_rounds_1024_pass[OF ik] round_state_1024_add)
qed

lemma mr_rounds_1024_probably_prime_only_if:
  "k - i = int m \<Longrightarrow> mr_rounds_1024 i k n g = Some (1, g') \<Longrightarrow> j < m \<Longrightarrow>
   witness_passes_1024 n g j"
proof (induction m arbitrary: i g j)
  case 0
  then show ?case by simp
next
  case (Suc m)
  from Suc.prems(1) have ik: "i < k" and km: "k - (i + 1) = int m" by simp_all
  from Suc.prems(2) obtain a g1 r a' where
    d: "bigint_rand_range n g = Some (a, g1)" "miller_rabin_witness_1024 n a = Some (r, a')"
       "r \<noteq> 0" "mr_rounds_1024 (i + 1) k n g1 = Some (1, g')"
    using ik by (subst (asm) mr_rounds_1024.simps) (auto split: bind_splits if_splits)
  have g1: "g1 = round_state_1024 g (Suc 0)" using d(1) by (rule bigint_rand_range_state)
  have p0: "witness_passes_1024 n g 0"
    using d(1,2,3) by (auto simp: witness_passes_1024_def)
  show ?case
  proof (cases j)
    case 0
    with p0 show ?thesis by simp
  next
    case (Suc q)
    with Suc.prems(3) have "q < m" by simp
    from Suc.IH[OF km d(4)[unfolded g1] this] show ?thesis
      by (simp add: witness_passes_1024_shift Suc)
  qed
qed

text \<open>The witness test of the native-width program returns for every \<open>n > 1\<close>.\<close>

lemma decompose_returns: "d \<noteq> 0 \<Longrightarrow> \<exists>d' s'. decompose d s = Some (d', s')"
proof (induction "unat d" arbitrary: d s rule: less_induct)
  case less
  show ?case
  proof (cases "d AND 1 = 0")
    case True
    have "drop_bit 1 d \<noteq> 0"
    proof
      assume z: "drop_bit 1 d = 0"
      have "d = 2 * (d div 2) + d mod 2"
        by (rule mult_div_mod_eq[symmetric])
      with z True less.prems show False by (simp add: drop_bit_eq_div and_one_eq)
    qed
    moreover have "unat (drop_bit 1 d) < unat d"
      using less.prems unat_drop_bit_1_less[of d] by simp
    ultimately have "\<exists>d' s'. decompose (drop_bit 1 d) (s + 1) = Some (d', s')"
      by (rule less.hyps[rotated])
    with True show ?thesis by (subst decompose.simps) simp
  next
    case False
    then show ?thesis by (subst decompose.simps) simp
  qed
qed

lemma witness_loop_returns: "n \<noteq> 0 \<Longrightarrow> \<exists>v. witness_loop r s x n = Some v"
proof (induction "nat (s - r)" arbitrary: r x)
  case 0
  then show ?case by (subst witness_loop.simps) simp
next
  case (Suc m)
  from Suc.hyps(2) have rs: "r < s" and m: "m = nat (s - (r + 1))" by simp_all
  from mulmod_returns_less[OF Suc.prems, of x x] obtain x1 where x1: "mulmod x x n = Some x1"
    by blast
  from Suc.hyps(1)[OF m Suc.prems, of x1] obtain v where "witness_loop (r + 1) s x1 n = Some v"
    by blast
  with rs x1 show ?case by (subst witness_loop.simps) simp
qed

lemma miller_rabin_witness_returns:
  assumes "1 < n"
  shows "\<exists>v. miller_rabin_witness n a = Some v"
proof -
  from assms have n0: "n \<noteq> 0" by auto
  from assms have "n - 1 \<noteq> 0" by auto
  from decompose_returns[OF this, of 0] obtain d s where ds: "decompose (n - 1) 0 = Some (d, s)"
    by blast
  from powmod_returns_less[OF assms, of a d] obtain x where x: "powmod a d n = Some x"
    by blast
  from witness_loop_returns[OF n0, of 1 s x] obtain v where "witness_loop 1 s x n = Some v"
    by blast
  with n0 ds x show ?thesis by (simp add: miller_rabin_witness_def)
qed

lemma small_prime_check_None_head:
  "small_prime_check (p # q # ps) n = None \<Longrightarrow> n mod of_int p \<noteq> 0 \<and> n \<noteq> of_int q"
  by (simp split: if_splits)

lemma not_decided_gt_4:
  assumes "\<not> n < 2" and "small_prime_check small_primes n = None"
  shows "4 < n" and "n - 3 \<noteq> 0" and "1 < n"
proof -
  have "small_primes = 2 # 3 # drop 2 small_primes" by (simp add: small_primes_def)
  with assms(2) have "small_prime_check (2 # 3 # drop 2 small_primes) n = None" by simp
  from small_prime_check_None_head[OF this] have odd: "n mod 2 \<noteq> 0" and n3: "n \<noteq> 3" by simp_all
  from odd have "unat n mod 2 \<noteq> 0" by (simp add: word_unat_eq_iff unat_mod)
  moreover from n3 have "unat n \<noteq> 3" by (simp add: word_unat_eq_iff)
  moreover from assms(1) have "2 \<le> unat n" by (simp add: word_less_nat_alt)
  ultimately have "4 < unat n" by presburger
  then show "4 < n" by (simp add: word_less_nat_alt)
  then show "n - 3 \<noteq> 0" by auto
  from assms(1) show "1 < n" by unat_arith
qed

text \<open>The drivers as a whole, for a number that the small-prime stage leaves undecided.\<close>

lemma is_probable_prime_all_pass:
  assumes "\<not> n < 2" and "small_prime_check small_primes n = None"
    and "\<And>j. j < nat k \<Longrightarrow> witness_passes n (round_base n g j)"
  shows "is_probable_prime n k g = Some (1, round_state g (nat k))"
proof (cases "0 \<le> k")
  case True
  then have "k - 0 = int (nat k)" by simp
  from mr_rounds_all_pass[OF not_decided_gt_4(2)[OF assms(1,2)] this assms(3)] assms(1,2)
  show ?thesis by (simp add: is_probable_prime_def)
next
  case False
  then have "\<not> 0 < k" and "nat k = 0" by simp_all
  with assms(1,2) show ?thesis by (simp add: is_probable_prime_def mr_rounds_done)
qed

lemma is_probable_prime_first_failure:
  assumes "\<not> n < 2" and "small_prime_check small_primes n = None"
    and "j < nat k" and "\<And>q. q < j \<Longrightarrow> witness_passes n (round_base n g q)"
    and "witness_fails n (round_base n g j)"
  shows "is_probable_prime n k g = Some (0, round_state g (Suc j))"
proof -
  from assms(3) have "int j < k - 0" by simp
  from mr_rounds_first_failure[OF not_decided_gt_4(2)[OF assms(1,2)] this assms(4,5)] assms(1,2)
  show ?thesis by (simp add: is_probable_prime_def)
qed

lemma is_probable_prime_only_if:
  assumes "\<not> n < 2" and "small_prime_check small_primes n = None"
    and "is_probable_prime n k g = Some (1, g')" and "j < nat k"
  shows "witness_passes n (round_base n g j)"
proof -
  from assms(4) have k: "k - 0 = int (nat k)" by simp
  from assms(1,2,3) have "mr_rounds 0 k n g = Some (1, g')" by (simp add: is_probable_prime_def)
  from mr_rounds_probably_prime_only_if[OF not_decided_gt_4(2)[OF assms(1,2)] k this assms(4)]
  show ?thesis .
qed

lemma is_probable_prime_with_print_runs_all:
  assumes "\<not> n < 2" and "small_prime_check small_primes n = None"
  shows "\<exists>r lines. is_probable_prime_with_print n k g = Some (r, round_state g (nat k), lines) \<and>
      length lines = nat k \<and>
      r = (if \<forall>j < nat k. witness_passes n (round_base n g j) then 1 else 0)"
proof (cases "0 \<le> k")
  case True
  then have k: "k - 0 = int (nat k)" by simp
  have "miller_rabin_witness n (round_base n g j) \<noteq> None" for j
    using miller_rabin_witness_returns[OF not_decided_gt_4(3)[OF assms]] by auto
  from mr_rounds_print_runs_all[OF not_decided_gt_4(2)[OF assms] not_decided_gt_4(1)[OF assms] k this,
      where ap = 1 and out = "[]"] assms
  show ?thesis by (simp add: is_probable_prime_with_print_def)
next
  case False
  then have "\<not> 0 < k" and "nat k = 0" by simp_all
  with assms show ?thesis by (simp add: is_probable_prime_with_print_def mr_rounds_print_done)
qed

lemma is_probable_prime_1024_all_pass:
  assumes "small_prime_check_1024 small_primes_1024 N = None"
    and "\<And>j. j < nat k \<Longrightarrow> witness_passes_1024 N g j"
  shows "is_probable_prime_1024 N k g = Some (1, round_state_1024 g (nat k))"
proof (cases "0 \<le> k")
  case True
  then have "k - 0 = int (nat k)" by simp
  from mr_rounds_1024_all_pass[OF this assms(2)] assms(1)
  show ?thesis by (simp add: is_probable_prime_1024_def)
next
  case False
  then have "\<not> 0 < k" and "nat k = 0" by simp_all
  with assms(1) show ?thesis by (simp add: is_probable_prime_1024_def mr_rounds_1024_done)
qed

lemma is_probable_prime_1024_first_failure:
  assumes "small_prime_check_1024 small_primes_1024 N = None"
    and "j < nat k" and "\<And>q. q < j \<Longrightarrow> witness_passes_1024 N g q"
    and "witness_fails_1024 N g j"
  shows "is_probable_prime_1024 N k g = Some (0, round_state_1024 g (Suc j))"
proof -
  from assms(2) have "int j < k - 0" by simp
  from mr_rounds_1024_first_failure[OF this assms(3,4)] assms(1)
  show ?thesis by (simp add: is_probable_prime_1024_def)
qed

lemma is_probable_prime_1024_only_if:
  assumes "small_prime_check_1024 small_primes_1024 N = None"
    and "is_probable_prime_1024 N k g = Some (1, g')" and "j < nat k"
  shows "witness_passes_1024 N g j"
proof -
  from assms(3) have k: "k - 0 = int (nat k)" by simp
  from assms(1,2) have "mr_rounds_1024 0 k N g = Some (1, g')"
    by (simp add: is_probable_prime_1024_def)
  from mr_rounds_1024_probably_prime_only_if[OF k this assms(3)]
  show ?thesis .
qed

text \<open>
  Claim C4, as amended. Let the small-prime stage leave \<open>n\<close> undecided. The driver
  \<open>is_probable_prime\<close> that the search uses, and the 1024-bit driver, return
  "probably prime" only if the base of every one of the \<open>k\<close> rounds passes the
  witness test; they return "probably prime" if all of them pass; and at the first
  base that fails they return "composite" at once: the random source has then been
  advanced by the draws of the rounds up to the failing one and by nothing else.
  The printing driver \<open>is_probable_prime_with_print\<close> returns the same verdict, but
  it does not stop at a failing base: it always draws and prints all \<open>k\<close> rounds.
\<close>

theorem multi_round_driver:
  assumes "\<not> n < 2" and "small_prime_check small_primes n = None"
    and "small_prime_check_1024 small_primes_1024 N = None"
  shows
    "(is_probable_prime n k g = Some (1, g') \<longrightarrow>
        (\<forall>j < nat k. witness_passes n (round_base n g j))) \<and>
     ((\<forall>j < nat k. witness_passes n (round_base n g j)) \<longrightarrow>
        is_probable_prime n k g = Some (1, round_state g (nat k))) \<and>
     (j < nat k \<and> (\<forall>q < j. witness_passes n (round_base n g q)) \<and>
        witness_fails n (round_base n g j) \<longrightarrow>
        is_probable_prime n k g = Some (0, round_state g (Suc j))) \<and>
     (\<exists>r lines. is_probable_prime_with_print n k g = Some (r, round_state g (nat k), lines) \<and>
        length lines = nat k \<and>
        r = (if \<forall>j < nat k. witness_passes n (round_base n g j) then 1 else 0)) \<and>
     (is_probable_prime_1024 N k g = Some (1, g') \<longrightarrow>
        (\<forall>j < nat k. witness_passes_1024 N g j)) \<and>
     ((\<forall>j < nat k. witness_passes_1024 N g j) \<longrightarrow>
        is_probable_prime_1024 N k g = Some (1, round_state_1024 g (nat k))) \<and>
     (j < nat k \<and> (\<forall>q < j. witness_passes_1024 N g q) \<and> witness_fails_1024 N g j \<longrightarrow>
        is_probable_prime_1024 N k g = Some (0, round_state_1024 g (Suc j)))"
proof (intro conjI impI allI)
  fix i
  assume "is_probable_prime n k g = Some (1, g')" and "i < nat k"
  with assms(1,2) show "witness_passes n (round_base n g i)"
    by (rule is_probable_prime_only_if)
next
  assume "\<forall>j < nat k. witness_passes n (round_base n g j)"
  with assms(1,2) show "is_probable_prime n k g = Some (1, round_state g (nat k))"
    by (intro is_probable_prime_all_pass) simp_all
next
  assume "j < nat k \<and> (\<forall>q < j. witness_passes n (round_base n g q)) \<and>
    witness_fails n (round_base n g j)"
  with assms(1,2) show "is_probable_prime n k g = Some (0, round_state g (Suc j))"
    by (intro is_probable_prime_first_failure) simp_all
next
  from assms(1,2)
  show "\<exists>r lines. is_probable_prime_with_print n k g = Some (r, round_state g (nat k), lines) \<and>
        length lines = nat k \<and>
        r = (if \<forall>j < nat k. witness_passes n (round_base n g j) then 1 else 0)"
    by (rule is_probable_prime_with_print_runs_all)
next
  fix i
  assume "is_probable_prime_1024 N k g = Some (1, g')" and "i < nat k"
  with assms(3) show "witness_passes_1024 N g i"
    by (rule is_probable_prime_1024_only_if)
next
  assume "\<forall>j < nat k. witness_passes_1024 N g j"
  with assms(3) show "is_probable_prime_1024 N k g = Some (1, round_state_1024 g (nat k))"
    by (intro is_probable_prime_1024_all_pass) simp_all
next
  assume "j < nat k \<and> (\<forall>q < j. witness_passes_1024 N g q) \<and> witness_fails_1024 N g j"
  with assms(3) show "is_probable_prime_1024 N k g = Some (0, round_state_1024 g (Suc j))"
    by (intro is_probable_prime_1024_first_failure) simp_all
qed

text \<open>
  An instance: \<open>44521 = 211 * 211\<close> passes the small-prime stage, and on a random
  source that returns zeros every round draws the base 2, which fails. The driver of
  the search, asked for five rounds, stops after the first. In the 1024-bit program the
  number 1 passes the small-prime stage, and every base passes for it.
\<close>

lemma rand_ull_zero_source:
  "outputs g = (\<lambda>i. 0) \<Longrightarrow> fst (rand_ull mx g) = 0"
  by (simp add: rand_ull_def rand32_def rand_def Let_def split_beta)

lemma round_base_zero_source: "outputs g = (\<lambda>i. 0) \<Longrightarrow> round_base n g j = 2"
  by (simp add: round_base_def round_state_def rand_ull_zero_source)

lemma sieve_44521: "small_prime_check small_primes 44521 = None"
  by code_simp

lemma witness_44521_2: "miller_rabin_witness 44521 2 = Some 0"
  by code_simp

lemma sieve_1024_one: "small_prime_check_u32 small_primes_1024 1 = None"
  by code_simp

lemma rand_words_zero_source:
  "outputs g = (\<lambda>i. 0) \<Longrightarrow> fst (rand_words k g) = replicate k 0"
  by (induction k arbitrary: g) (simp_all add: Let_def split_beta rand_def)

lemma reduce_zero_mod_minus_2:
  "subtract_while_gte (replicate 32 0) (bigint_sub (bigint_set_u32 1) (bigint_set_u32 3))
     = Some (replicate 32 0)"
  by code_simp

lemma zero_plus_two: "fst (bigint_add (replicate 32 0) (bigint_set_u32 2)) = bigint_set_u32 2"
  by code_simp

lemma witness_1024_one_two:
  "miller_rabin_witness_1024 (bigint_set_u32 1) (bigint_set_u32 2) = Some (1, bigint_set_u32 2)"
  by code_simp

lemma bigint_rand_range_one_zero_source:
  "outputs g = (\<lambda>i. 0) \<Longrightarrow>
   bigint_rand_range (bigint_set_u32 1) g = Some (bigint_set_u32 2, snd (bigint_rand g))"
  by (simp add: bigint_rand_range_def Let_def split_beta bigint_rand_def rand_words_zero_source
      WORDS_COUNT_def reduce_zero_mod_minus_2 zero_plus_two)

lemma witness_passes_1024_one_zero_source:
  "outputs g = (\<lambda>i. 0) \<Longrightarrow> witness_passes_1024 (bigint_set_u32 1) g j"
  by (simp add: witness_passes_1024_def round_state_1024_def bigint_rand_range_one_zero_source
      witness_1024_one_two)

theorem multi_round_driver_witness:
  "\<not> (44521 :: ull) < 2 \<and>
   small_prime_check small_primes 44521 = None \<and>
   small_prime_check_1024 small_primes_1024 (bigint_set_u32 1) = None \<and>
   witness_fails 44521 (round_base 44521 \<lparr>outputs = (\<lambda>i. 0), pos = 0\<rparr> 0) \<and>
   is_probable_prime 44521 5 \<lparr>outputs = (\<lambda>i. 0), pos = 0\<rparr>
      = Some (0, \<lparr>outputs = (\<lambda>i. 0), pos = 4\<rparr>) \<and>
   is_probable_prime_1024 (bigint_set_u32 1) 3 \<lparr>outputs = (\<lambda>i. 0), pos = 0\<rparr>
      = Some (1, \<lparr>outputs = (\<lambda>i. 0), pos = 192\<rparr>)"
proof -
  let ?g = "\<lparr>outputs = (\<lambda>i. 0), pos = 0\<rparr>"
  have a: "\<not> (44521 :: ull) < 2" by simp
  have c: "small_prime_check_1024 small_primes_1024 (bigint_set_u32 1) = None"
    by (simp add: small_prime_check_1024_set_u32 sieve_1024_one)
  have f: "witness_fails 44521 (round_base 44521 ?g 0)"
    by (simp add: witness_fails_def round_base_zero_source witness_44521_2)
  have p: "\<forall>j < nat 3. witness_passes_1024 (bigint_set_u32 1) ?g j"
    by (simp add: witness_passes_1024_one_zero_source)
  from multi_round_driver[OF a sieve_44521 c, where j = 0 and k = 5 and g = ?g] f
  have "is_probable_prime 44521 5 ?g = Some (0, round_state ?g (Suc 0))" by simp
  moreover from multi_round_driver[OF a sieve_44521 c, where j = 0 and k = 3 and g = ?g] p
  have "is_probable_prime_1024 (bigint_set_u32 1) 3 ?g = Some (1, round_state_1024 ?g (nat 3))"
    by blast
  ultimately show ?thesis
    using a sieve_44521 c f by (simp add: round_state_def round_state_1024_def WORDS_COUNT_def)
qed

text \<open>
  The claim as it was stated fails for the printing driver: on the same input, asked
  for two rounds, it prints two lines and has drawn two bases (eight calls of
  \<open>rand()\<close>) although the first base already failed.
\<close>

theorem printing_driver_counterexample:
  "miller_rabin_witness 44521 2 = Some 0 \<and>
   is_probable_prime_with_print 44521 2 \<lparr>outputs = (\<lambda>i. 0), pos = 0\<rparr>
     = Some (0, \<lparr>outputs = (\<lambda>i. 0), pos = 8\<rparr>, [(1, 2, 0), (2, 2, 0)])"
proof -
  let ?g = "\<lparr>outputs = (\<lambda>i. 0), pos = 0\<rparr>"
  have s1: "mr_rounds_print 0 2 44521 1 ?g [] =
      mr_rounds_print 1 2 44521 0 (round_state ?g (Suc 0)) [(1, 2, 0)]"
    by (subst mr_rounds_print_step) (simp_all add: round_base_zero_source witness_44521_2)
  have s2: "mr_rounds_print 1 2 44521 0 (round_state ?g (Suc 0)) [(1, 2, 0)] =
      mr_rounds_print 2 2 44521 0 (round_state (round_state ?g (Suc 0)) (Suc 0))
        [(1, 2, 0), (2, 2, 0)]"
    by (subst mr_rounds_print_step)
       (simp_all add: round_base_zero_source witness_44521_2 round_state_def)
  have s3: "mr_rounds_print 2 2 44521 0 (round_state (round_state ?g (Suc 0)) (Suc 0))
        [(1, 2, 0), (2, 2, 0)] =
      Some (0, round_state (round_state ?g (Suc 0)) (Suc 0), [(1, 2, 0), (2, 2, 0)])"
    by (rule mr_rounds_print_done) simp
  have "is_probable_prime_with_print 44521 2 ?g = mr_rounds_print 0 2 44521 1 ?g []"
    by (simp add: is_probable_prime_with_print_def sieve_44521)
  with s1 s2 s3 witness_44521_2 show ?thesis
    by (simp add: round_state_def)
qed

section \<open>The base object of the 1024-bit witness test\<close>

lemma witness_after_reduction_base:
  "witness_after_reduction n a = Some (r, a') \<Longrightarrow> a' = a"
  by (auto simp: witness_after_reduction_def Let_def split: bind_splits if_splits)

lemma miller_rabin_witness_1024_below:
  assumes "length n = length a" "bigint_val a < bigint_val n"
    and "miller_rabin_witness_1024 n a = Some (r, a')"
  shows "a' = a"
proof -
  from assms(1,2) have "\<not> bigint_compare a n \<ge> 0"
    by (simp add: bigint_compare_ge)
  with assms(3) show ?thesis
    by (simp add: miller_rabin_witness_1024_def witness_after_reduction_base)
qed

lemma miller_rabin_witness_1024_overwrites:
  assumes "length n = WORDS_COUNT" "length a = WORDS_COUNT"
    and "0 < bigint_val n" "bigint_val n \<le> bigint_val a"
    and "bigint_val a mod bigint_val n \<noteq> 0"
    and "miller_rabin_witness_1024 n a = Some (r, a')"
  shows "bigint_val a' = bigint_val a mod bigint_val n" and "a' \<noteq> a"
proof -
  from miller_rabin_witness_1024_reduction[OF assms(1-4)] assms(5) obtain t where
    t: "bigint_val t = bigint_val a mod bigint_val n"
       "miller_rabin_witness_1024 n a = witness_after_reduction n t"
    by auto
  from t(2) assms(6) have "witness_after_reduction n t = Some (r, a')" by simp
  then have "a' = t" by (rule witness_after_reduction_base)
  with t(1) show v: "bigint_val a' = bigint_val a mod bigint_val n" by simp
  have "bigint_val a mod bigint_val n < bigint_val n" using assms(3) by simp
  with assms(4) v show "a' \<noteq> a" by auto
qed

text \<open>The test on the modulus 3 and the base 5.\<close>

lemma set_u32_eqI:
  "length c = WORDS_COUNT \<Longrightarrow> bigint_val c = unat w \<Longrightarrow> c = bigint_set_u32 w"
  by (rule bigint_val_inj) simp_all

lemma three_minus_one: "bigint_sub (bigint_set_u32 3) (bigint_set_u32 1) = bigint_set_u32 2"
proof (rule set_u32_eqI)
  show "length (bigint_sub (bigint_set_u32 3) (bigint_set_u32 1)) = WORDS_COUNT"
    by (simp add: bigint_sub_val(2))
  show "bigint_val (bigint_sub (bigint_set_u32 3) (bigint_set_u32 1)) = unat (2 :: u32)"
    by (simp add: bigint_sub_val(1))
qed

lemma strip_twos_two: "strip_twos (bigint_set_u32 2) 0 = Some (bigint_set_u32 1, 1)"
proof -
  have e: "bigint_is_even (bigint_set_u32 2)"
    by (simp add: bigint_is_even_val bigint_set_u32_Cons)
  have h: "bigint_shr_one (bigint_set_u32 2) = bigint_set_u32 1"
    by (rule set_u32_eqI) (simp_all add: bigint_shr_one_val)
  have o: "\<not> bigint_is_even (bigint_set_u32 1)"
    by (simp add: bigint_is_even_val bigint_set_u32_Cons)
  show ?thesis
    by (subst strip_twos.simps, simp add: e h, subst strip_twos.simps, simp add: o)
qed

lemma mod_exp_2_1_3:
  "bigint_mod_exp (bigint_set_u32 2) (bigint_set_u32 1) (bigint_set_u32 3) = Some (bigint_set_u32 2)"
proof -
  from bigint_mod_exp_val[of "bigint_set_u32 3" "bigint_set_u32 2" "bigint_set_u32 1"]
  obtain c where c: "bigint_mod_exp (bigint_set_u32 2) (bigint_set_u32 1) (bigint_set_u32 3) = Some c"
    "bigint_val c = 2" "length c = WORDS_COUNT"
    by auto
  from c(3,2) have "c = bigint_set_u32 2" by (intro set_u32_eqI) simp_all
  with c(1) show ?thesis by simp
qed

lemma witness_after_reduction_3_2:
  "witness_after_reduction (bigint_set_u32 3) (bigint_set_u32 2) = Some (1, bigint_set_u32 2)"
  by (simp add: witness_after_reduction_def three_minus_one strip_twos_two mod_exp_2_1_3
      bigint_compare_eq)

lemma witness_1024_3_5:
  "miller_rabin_witness_1024 (bigint_set_u32 3) (bigint_set_u32 5) = Some (1, bigint_set_u32 2)"
proof -
  from miller_rabin_witness_1024_reduction[of "bigint_set_u32 3" "bigint_set_u32 5"]
  obtain t where t: "length t = WORDS_COUNT" "bigint_val t = 2"
    "miller_rabin_witness_1024 (bigint_set_u32 3) (bigint_set_u32 5) =
       (if bigint_val t = 0 then Some (1, bigint_set_u32 5)
        else witness_after_reduction (bigint_set_u32 3) t)"
    by auto
  from t(1,2) have "t = bigint_set_u32 2" by (intro set_u32_eqI) simp_all
  with t(3) show ?thesis by (simp add: witness_after_reduction_3_2)
qed

text \<open>
  Claim C8. The witness argument of \<open>miller_rabin_witness_1024\<close> is not consumed by
  value: the function receives a pointer to the caller's base and, when the base is
  not below the modulus and not a multiple of it, stores the reduced base through that
  pointer. After such a call that returns, the caller's base object holds \<open>a mod n\<close>,
  which differs from \<open>a\<close>. (A base below the modulus is left as it was.)
\<close>

theorem witness_test_overwrites_base:
  "(length N = WORDS_COUNT \<and> length A = WORDS_COUNT \<and> 0 < bigint_val N \<and>
    bigint_val N \<le> bigint_val A \<and> bigint_val A mod bigint_val N \<noteq> 0 \<and>
    miller_rabin_witness_1024 N A = Some (r, A') \<longrightarrow>
      bigint_val A' = bigint_val A mod bigint_val N \<and> A' \<noteq> A) \<and>
   (length N = length A \<and> bigint_val A < bigint_val N \<and>
    miller_rabin_witness_1024 N A = Some (r, A') \<longrightarrow> A' = A)"
  using miller_rabin_witness_1024_overwrites[of N A r A']
    miller_rabin_witness_1024_below[of N A r A']
  by blast

theorem witness_test_overwrites_base_witness:
  "length (bigint_set_u32 3) = WORDS_COUNT \<and> length (bigint_set_u32 5) = WORDS_COUNT \<and>
   0 < bigint_val (bigint_set_u32 3) \<and>
   bigint_val (bigint_set_u32 3) \<le> bigint_val (bigint_set_u32 5) \<and>
   bigint_val (bigint_set_u32 5) mod bigint_val (bigint_set_u32 3) \<noteq> 0 \<and>
   miller_rabin_witness_1024 (bigint_set_u32 3) (bigint_set_u32 5) = Some (1, bigint_set_u32 2) \<and>
   bigint_val (bigint_set_u32 2) = bigint_val (bigint_set_u32 5) mod bigint_val (bigint_set_u32 3) \<and>
   bigint_set_u32 2 \<noteq> bigint_set_u32 5"
  using witness_test_overwrites_base[of "bigint_set_u32 3" "bigint_set_u32 5" 1 "bigint_set_u32 2"]
    witness_1024_3_5
  by simp

section \<open>Modular multiplication and exponentiation beyond the single width\<close>

text \<open>
  Three 1024-bit numbers: \<open>2 ^ 512\<close>, \<open>2 ^ 1022\<close> and the odd modulus
  \<open>2 ^ 1023 + 1\<close>.
\<close>

definition pow2_512 :: bigint1024 where
  "pow2_512 = replicate 16 0 @ 1 # replicate 15 0"

definition pow2_1022 :: bigint1024 where
  "pow2_1022 = replicate 31 0 @ [0x40000000]"

definition pow2_1023_plus_1 :: bigint1024 where
  "pow2_1023_plus_1 = 1 # replicate 30 0 @ [0x80000000]"

lemma length_pow2_512 [simp]: "length pow2_512 = WORDS_COUNT"
  by (simp add: pow2_512_def WORDS_COUNT_def)

lemma length_pow2_1022 [simp]: "length pow2_1022 = WORDS_COUNT"
  by (simp add: pow2_1022_def WORDS_COUNT_def)

lemma length_pow2_1023_plus_1 [simp]: "length pow2_1023_plus_1 = WORDS_COUNT"
  by (simp add: pow2_1023_plus_1_def WORDS_COUNT_def)

lemma bigint_val_pow2_512: "bigint_val pow2_512 = 2 ^ 512"
  by (simp add: pow2_512_def bigint_val_append)

lemma bigint_val_pow2_1022: "bigint_val pow2_1022 = 2 ^ 1022"
  by (simp add: pow2_1022_def bigint_val_append)

lemma bigint_val_pow2_1023_plus_1: "bigint_val pow2_1023_plus_1 = 2 ^ 1023 + 1"
  by (simp add: pow2_1023_plus_1_def bigint_val_append)

lemma bigint_zero_eqI: "length c = WORDS_COUNT \<Longrightarrow> bigint_val c = 0 \<Longrightarrow> c = bigint_zero"
  by (rule bigint_val_inj) simp_all

lemma bigint_mul_pow2_512: "bigint_mul pow2_512 pow2_512 = bigint_zero"
  by (rule bigint_zero_eqI) (simp_all add: bigint_mul_val bigint_val_pow2_512 WORDS_COUNT_def)

lemma bigint_mod_mul_zero_product:
  assumes "bigint_mul a b = bigint_zero" "length n = WORDS_COUNT" "0 < bigint_val n"
  shows "bigint_mod_mul a b n = Some bigint_zero"
proof -
  from bigint_mod_mul_reduces[OF assms(2,3), of a b] assms(1) obtain c where
    c: "bigint_mod_mul a b n = Some c" "bigint_val c = 0" "length c = WORDS_COUNT"
    by auto
  from c(3,2) have "c = bigint_zero" by (rule bigint_zero_eqI)
  with c(1) show ?thesis by simp
qed

lemma bigint_mod_mul_pow2_512:
  "bigint_mod_mul pow2_512 pow2_512 pow2_1023_plus_1 = Some bigint_zero"
  by (rule bigint_mod_mul_zero_product)
     (simp_all add: bigint_mul_pow2_512 bigint_val_pow2_1023_plus_1)

text \<open>
  The aligning loop of \<open>bigint_mod_mul\<close> does not end when no shifted copy of the
  modulus, truncated to 1024 bits, reaches the remainder.
\<close>

lemma align_loop_diverges:
  assumes "length ns = length rem"
    and "\<And>k. (bigint_val ns * 2 ^ k) mod 2 ^ (32 * length ns) < bigint_val rem"
  shows "align_loop ns rem sh = None"
proof (cases "align_loop ns rem sh")
  case None
  then show ?thesis .
next
  case (Some r)
  from align_loop_result[OF Some assms(1)] obtain k where
    "bigint_val (fst r) = (bigint_val ns * 2 ^ k) mod 2 ^ (32 * length ns)"
    "bigint_val rem \<le> bigint_val (fst r)"
    by blast
  with assms(2)[of k] show ?thesis by simp
qed

lemma shifted_modulus_small:
  "((2 ^ 1023 + 1) * 2 ^ k) mod 2 ^ 1024 < (3 * 2 ^ 1022 :: nat)"
proof (cases k)
  case 0
  then show ?thesis by simp
next
  case (Suc j)
  have "((2 ^ 1023 + 1) * 2 ^ k) mod 2 ^ 1024 = ((2 ^ 1024 * 2 ^ j + 2 ^ k) mod 2 ^ 1024 :: nat)"
    by (simp add: Suc algebra_simps)
  also have "\<dots> = (2 ^ k mod 2 ^ 1024 :: nat)"
    by (simp only: mod_mult_self4)
  finally have e: "((2 ^ 1023 + 1) * 2 ^ k) mod 2 ^ 1024 = (2 ^ k mod 2 ^ 1024 :: nat)" .
  have "(2 ^ k mod 2 ^ 1024 :: nat) \<le> 2 ^ 1023"
  proof (cases "k < 1024")
    case True
    then have "(2::nat) ^ k \<le> 2 ^ 1023" by (intro power_increasing) simp_all
    moreover have "(2 ^ k mod 2 ^ 1024 :: nat) \<le> 2 ^ k" by (rule mod_less_eq_dividend)
    ultimately show ?thesis by (rule order_trans[rotated])
  next
    case False
    then have "(2::nat) ^ 1024 dvd 2 ^ k" by (intro le_imp_power_dvd) simp
    then have "(2 ^ k mod 2 ^ 1024 :: nat) = 0" by (rule dvd_imp_mod_0)
    then show ?thesis by simp
  qed
  then show ?thesis unfolding e by simp
qed

lemma bigint_mod_mul_diverges:
  "bigint_mod_mul pow2_1022 (bigint_set_u32 3) pow2_1023_plus_1 = None"
proof -
  have v: "bigint_val (bigint_mul pow2_1022 (bigint_set_u32 3)) = 3 * 2 ^ 1022"
    by (simp add: bigint_mul_val bigint_val_pow2_1022 WORDS_COUNT_def)
  have "align_loop pow2_1023_plus_1 (bigint_mul pow2_1022 (bigint_set_u32 3)) 0 = None"
  proof (rule align_loop_diverges)
    show "length pow2_1023_plus_1 = length (bigint_mul pow2_1022 (bigint_set_u32 3))"
      by simp
    fix k
    show "(bigint_val pow2_1023_plus_1 * 2 ^ k) mod 2 ^ (32 * length pow2_1023_plus_1)
        < bigint_val (bigint_mul pow2_1022 (bigint_set_u32 3))"
      unfolding v bigint_val_pow2_1023_plus_1 length_pow2_1023_plus_1
      using shifted_modulus_small[of k] by (simp add: WORDS_COUNT_def)
  qed
  then show ?thesis by (simp add: bigint_mod_mul_def)
qed

lemma mulmod_wraps: "mulmod 9223372036854775808 2 18446744073709551557 = Some 0"
  by code_simp

text \<open>
  Claim C2 does not hold of the code. Neither function has the double-width product.
  The native-width \<open>mulmod\<close> doubles its first operand in a 64-bit word, which wraps
  around when the modulus is above \<open>2 ^ 63\<close>: \<open>2 ^ 63 * 2\<close> modulo \<open>2 ^ 64 - 59\<close> comes
  out as 0, not as 59. The 1024-bit \<open>bigint_mod_mul\<close> keeps only the low 1024 bits of
  the product: modulo \<open>2 ^ 1023 + 1\<close> the square of \<open>2 ^ 512\<close> comes out as 0, not as
  \<open>2 ^ 1023 - 1\<close>; and its aligning loop shifts the modulus out of the 1024 bits, so
  that the product of \<open>2 ^ 1022\<close> and 3, which does fit, never gets a result.
  In the 1024-bit examples both operands are below the modulus.
\<close>

theorem mod_multiply_not_exact:
  "mulmod 9223372036854775808 2 18446744073709551557 = Some 0 \<and>
   (unat (9223372036854775808 :: ull) * unat (2 :: ull)) mod unat (18446744073709551557 :: ull) = 59 \<and>
   bigint_val pow2_512 < bigint_val pow2_1023_plus_1 \<and>
   bigint_mod_mul pow2_512 pow2_512 pow2_1023_plus_1 = Some bigint_zero \<and>
   (bigint_val pow2_512 * bigint_val pow2_512) mod bigint_val pow2_1023_plus_1 = 2 ^ 1023 - 1 \<and>
   bigint_val pow2_1022 < bigint_val pow2_1023_plus_1 \<and>
   bigint_val (bigint_set_u32 3) < bigint_val pow2_1023_plus_1 \<and>
   bigint_mod_mul pow2_1022 (bigint_set_u32 3) pow2_1023_plus_1 = None \<and>
   (bigint_val pow2_1022 * bigint_val (bigint_set_u32 3)) mod bigint_val pow2_1023_plus_1
      = 2 ^ 1022 - 1"
  by (simp add: mulmod_wraps bigint_mod_mul_pow2_512 bigint_mod_mul_diverges
      bigint_val_pow2_512 bigint_val_pow2_1022 bigint_val_pow2_1023_plus_1)

lemma bigint_mul_zero_right: "length a = WORDS_COUNT \<Longrightarrow> bigint_mul a bigint_zero = bigint_zero"
  by (rule bigint_zero_eqI) (simp_all add: bigint_mul_val)

lemma mod_exp_loop_done: "mod_exp_loop result b bigint_zero m = Some result"
  by (subst mod_exp_loop.simps) (simp add: bigint_is_zero_val)

lemma bigint_set_u32_nth_0: "bigint_set_u32 v ! 0 = v"
  by (simp add: bigint_set_u32_Cons)

lemma shr_one_set_u32_2: "bigint_shr_one (bigint_set_u32 2) = bigint_set_u32 1"
  by (rule bigint_val_inj) (simp_all add: bigint_shr_one_val)

lemma shr_one_set_u32_1: "bigint_shr_one (bigint_set_u32 1) = bigint_zero"
  by (rule bigint_zero_eqI) (simp_all add: bigint_shr_one_val)

lemma bigint_mod_exp_pow2_512:
  "bigint_mod_exp pow2_512 (bigint_set_u32 2) pow2_1023_plus_1 = Some bigint_zero"
proof -
  let ?n = pow2_1023_plus_1
  have n: "length ?n = WORDS_COUNT" "0 < bigint_val ?n"
    by (simp_all add: bigint_val_pow2_1023_plus_1)
  have z: "bigint_mod_mul (bigint_set_u32 1) bigint_zero ?n = Some bigint_zero"
    "bigint_mod_mul bigint_zero bigint_zero ?n = Some bigint_zero"
    by (rule bigint_mod_mul_zero_product; simp add: bigint_mul_zero_right n)+
  have s1: "mod_exp_loop (bigint_set_u32 1) pow2_512 (bigint_set_u32 2) ?n =
      mod_exp_loop (bigint_set_u32 1) bigint_zero (bigint_set_u32 1) ?n"
    by (subst mod_exp_loop.simps)
       (simp add: bigint_is_zero_val bigint_set_u32_nth_0 bigint_mod_mul_pow2_512
          shr_one_set_u32_2)
  have s2: "mod_exp_loop (bigint_set_u32 1) bigint_zero (bigint_set_u32 1) ?n =
      mod_exp_loop bigint_zero bigint_zero bigint_zero ?n"
    by (subst mod_exp_loop.simps)
       (simp add: bigint_is_zero_val bigint_set_u32_nth_0 z shr_one_set_u32_1)
  show ?thesis
    unfolding bigint_mod_exp_def s1 s2 by (rule mod_exp_loop_done)
qed

lemma powmod_wraps: "powmod 4294967296 2 18446744073709551557 = Some 0"
  by code_simp

text \<open>
  Claim C3 does not hold of the code: modular exponentiation inherits the defect of
  the multiplication under it. At native width the square of \<open>2 ^ 32\<close> modulo
  \<open>2 ^ 64 - 59\<close> comes out as 0, not as 59; on 1024 bits the square of \<open>2 ^ 512\<close>
  modulo \<open>2 ^ 1023 + 1\<close> comes out as 0, not as \<open>2 ^ 1023 - 1\<close>. In both examples the
  base is below the modulus.
\<close>

theorem mod_exp_not_exact:
  "powmod 4294967296 2 18446744073709551557 = Some 0 \<and>
   (unat (4294967296 :: ull) ^ unat (2 :: ull)) mod unat (18446744073709551557 :: ull) = 59 \<and>
   bigint_val pow2_512 < bigint_val pow2_1023_plus_1 \<and>
   bigint_mod_exp pow2_512 (bigint_set_u32 2) pow2_1023_plus_1 = Some bigint_zero \<and>
   (bigint_val pow2_512 ^ bigint_val (bigint_set_u32 2)) mod bigint_val pow2_1023_plus_1
      = 2 ^ 1023 - 1"
  by (simp add: powmod_wraps bigint_mod_exp_pow2_512 bigint_val_pow2_512
      bigint_val_pow2_1023_plus_1)

section \<open>The bound on the results of the modular layer\<close>

text \<open>The 1024-bit number \<open>15 * 2 ^ 508\<close>.\<close>

definition pow2_508_times_15 :: bigint1024 where
  "pow2_508_times_15 = replicate 15 0 @ 0xF0000000 # replicate 16 0"

lemma length_pow2_508_times_15 [simp]: "length pow2_508_times_15 = WORDS_COUNT"
  by (simp add: pow2_508_times_15_def WORDS_COUNT_def)

lemma bigint_val_pow2_508_times_15: "bigint_val pow2_508_times_15 = 15 * 2 ^ 508"
  by (simp add: pow2_508_times_15_def bigint_val_append)

text \<open>
  With the exponent 1 the loop of \<open>bigint_mod_exp\<close> multiplies once and then squares
  the base once more, although the square is never used. That squaring does not end.
\<close>

lemma bigint_mod_mul_square_diverges:
  "bigint_mod_mul pow2_508_times_15 pow2_508_times_15 pow2_1023_plus_1 = None"
proof -
  have v: "bigint_val (bigint_mul pow2_508_times_15 pow2_508_times_15) = 225 * 2 ^ 1016"
    by (simp add: bigint_mul_val bigint_val_pow2_508_times_15 WORDS_COUNT_def)
  have "align_loop pow2_1023_plus_1 (bigint_mul pow2_508_times_15 pow2_508_times_15) 0 = None"
  proof (rule align_loop_diverges)
    show "length pow2_1023_plus_1 = length (bigint_mul pow2_508_times_15 pow2_508_times_15)"
      by simp
    fix k
    have "((2 ^ 1023 + 1) * 2 ^ k) mod 2 ^ 1024 < (225 * 2 ^ 1016 :: nat)"
      using shifted_modulus_small[of k] by simp
    then show "(bigint_val pow2_1023_plus_1 * 2 ^ k) mod 2 ^ (32 * length pow2_1023_plus_1)
        < bigint_val (bigint_mul pow2_508_times_15 pow2_508_times_15)"
      unfolding v bigint_val_pow2_1023_plus_1 length_pow2_1023_plus_1
      by (simp add: WORDS_COUNT_def)
  qed
  then show ?thesis by (simp add: bigint_mod_mul_def)
qed

lemma bigint_mod_exp_diverges:
  "bigint_mod_exp pow2_508_times_15 (bigint_set_u32 1) pow2_1023_plus_1 = None"
proof -
  have nz: "\<not> bigint_is_zero (bigint_set_u32 1)" by (simp add: bigint_is_zero_val)
  show ?thesis
    unfolding bigint_mod_exp_def
    by (subst mod_exp_loop.simps)
       (simp add: nz bigint_mod_mul_square_diverges split: bind_splits)
qed

lemma bigint_mod_mul_returns_less:
  assumes "length N = WORDS_COUNT" and "0 < bigint_val N"
    and "bigint_val (bigint_mul A B) < 2 ^ (32 * WORDS_COUNT - 1)"
  shows "\<exists>c. bigint_mod_mul A B N = Some c \<and> bigint_val c < bigint_val N"
proof -
  from bigint_mod_mul_reduces[OF assms] obtain c where "bigint_mod_mul A B N = Some c"
    "bigint_val c = bigint_val (bigint_mul A B) mod bigint_val N"
    by blast
  with assms(2) show ?thesis by simp
qed

lemma bigint_mod_exp_returns_less:
  assumes "length N = WORDS_COUNT" and "1 < bigint_val N" and "bigint_val N \<le> 2 ^ 511"
    and "length A = WORDS_COUNT" and "length E = WORDS_COUNT" and "bigint_val A < 2 ^ 511"
  shows "\<exists>c. bigint_mod_exp A E N = Some c \<and> bigint_val c < bigint_val N"
proof -
  from bigint_mod_exp_val[OF assms] obtain c where "bigint_mod_exp A E N = Some c"
    "bigint_val c = (bigint_val A ^ bigint_val E) mod bigint_val N"
    by blast
  with assms(2) show ?thesis by simp
qed

text \<open>
  Claim C10 does not hold of the 1024-bit code, which need not produce a result at all.

  Native width, where the claim holds: for every non-zero modulus \<open>mulmod\<close> returns a
  value below the modulus, and for every modulus above 1 so does \<open>powmod\<close> (both for
  all operands, also where the intermediate sums wrap around); the loop of \<open>mulmod\<close>
  keeps both of its accumulators below the modulus, the loop of \<open>powmod\<close> its result.

  1024 bits: \<open>bigint_mod_mul\<close> returns a value below the modulus when the truncated
  product has its top bit clear, and \<open>bigint_mod_exp\<close> does when the modulus is at most
  \<open>2 ^ 511\<close> and the base below \<open>2 ^ 511\<close>. Outside of these bounds they may run
  forever: for the odd modulus \<open>2 ^ 1023 + 1\<close> and operands below it,
  \<open>bigint_mod_mul\<close> has no result on \<open>2 ^ 1022\<close> and 3, and \<open>bigint_mod_exp\<close> has
  none on the base \<open>15 * 2 ^ 508\<close> and the exponent 1.
\<close>

theorem modular_results_are_residues:
  "(m \<noteq> 0 \<longrightarrow> (\<exists>r. mulmod a b m = Some r \<and> r < m)) \<and>
   (1 < m \<longrightarrow> (\<exists>r. powmod x e m = Some r \<and> r < m)) \<and>
   (res < m \<and> y < m \<longrightarrow> mulmod_loop res y b m < m \<and> add_reduce res y m < m) \<and>
   (m \<noteq> 0 \<and> res < m \<longrightarrow> (\<exists>r. powmod_loop res x e m = Some r \<and> r < m)) \<and>
   (length N = WORDS_COUNT \<and> 0 < bigint_val N \<and>
    bigint_val (bigint_mul A B) < 2 ^ (32 * WORDS_COUNT - 1) \<longrightarrow>
      (\<exists>c. bigint_mod_mul A B N = Some c \<and> bigint_val c < bigint_val N)) \<and>
   (length N = WORDS_COUNT \<and> 1 < bigint_val N \<and> bigint_val N \<le> 2 ^ 511 \<and>
    length A = WORDS_COUNT \<and> length E = WORDS_COUNT \<and> bigint_val A < 2 ^ 511 \<longrightarrow>
      (\<exists>c. bigint_mod_exp A E N = Some c \<and> bigint_val c < bigint_val N)) \<and>
   odd (bigint_val pow2_1023_plus_1) \<and> 3 \<le> bigint_val pow2_1023_plus_1 \<and>
   bigint_val pow2_1022 < bigint_val pow2_1023_plus_1 \<and>
   bigint_val (bigint_set_u32 3) < bigint_val pow2_1023_plus_1 \<and>
   bigint_mod_mul pow2_1022 (bigint_set_u32 3) pow2_1023_plus_1 = None \<and>
   bigint_val pow2_508_times_15 < bigint_val pow2_1023_plus_1 \<and>
   bigint_mod_exp pow2_508_times_15 (bigint_set_u32 1) pow2_1023_plus_1 = None"
proof (intro conjI impI)
  assume "m \<noteq> 0"
  then show "\<exists>r. mulmod a b m = Some r \<and> r < m" by (rule mulmod_returns_less)
next
  assume "1 < m"
  then show "\<exists>r. powmod x e m = Some r \<and> r < m" by (rule powmod_returns_less)
next
  assume "res < m \<and> y < m"
  then show "mulmod_loop res y b m < m" by (simp add: mulmod_loop_less)
next
  assume "res < m \<and> y < m"
  then show "add_reduce res y m < m" by (simp add: add_reduce_less)
next
  assume "m \<noteq> 0 \<and> res < m"
  then show "\<exists>r. powmod_loop res x e m = Some r \<and> r < m"
    by (simp add: powmod_loop_returns_less)
next
  assume "length N = WORDS_COUNT \<and> 0 < bigint_val N \<and>
    bigint_val (bigint_mul A B) < 2 ^ (32 * WORDS_COUNT - 1)"
  then show "\<exists>c. bigint_mod_mul A B N = Some c \<and> bigint_val c < bigint_val N"
    by (intro bigint_mod_mul_returns_less) simp_all
next
  assume "length N = WORDS_COUNT \<and> 1 < bigint_val N \<and> bigint_val N \<le> 2 ^ 511 \<and>
    length A = WORDS_COUNT \<and> length E = WORDS_COUNT \<and> bigint_val A < 2 ^ 511"
  then show "\<exists>c. bigint_mod_exp A E N = Some c \<and> bigint_val c < bigint_val N"
    by (intro bigint_mod_exp_returns_less) simp_all
next
  show "odd (bigint_val pow2_1023_plus_1)" by (simp add: bigint_val_pow2_1023_plus_1)
  show "3 \<le> bigint_val pow2_1023_plus_1" by (simp add: bigint_val_pow2_1023_plus_1)
  show "bigint_val pow2_1022 < bigint_val pow2_1023_plus_1"
    by (simp add: bigint_val_pow2_1022 bigint_val_pow2_1023_plus_1)
  show "bigint_val (bigint_set_u32 3) < bigint_val pow2_1023_plus_1"
    by (simp add: bigint_val_pow2_1023_plus_1)
  show "bigint_mod_mul pow2_1022 (bigint_set_u32 3) pow2_1023_plus_1 = None"
    by (rule bigint_mod_mul_diverges)
  show "bigint_val pow2_508_times_15 < bigint_val pow2_1023_plus_1"
    by (simp add: bigint_val_pow2_508_times_15 bigint_val_pow2_1023_plus_1)
  show "bigint_mod_exp pow2_508_times_15 (bigint_set_u32 1) pow2_1023_plus_1 = None"
    by (rule bigint_mod_exp_diverges)
qed

text \<open>
  An instance of the parts that hold: modulo 7 the product of 3 and 5 and the fifth
  power of 3, at both widths.
\<close>

theorem modular_results_are_residues_witness:
  "(7 :: ull) \<noteq> 0 \<and> (\<exists>r. mulmod 3 5 7 = Some r \<and> r < 7) \<and>
   (1 :: ull) < 7 \<and> (\<exists>r. powmod 3 5 7 = Some r \<and> r < 7) \<and>
   (2 :: ull) < 7 \<and> mulmod_loop 1 2 5 7 < 7 \<and> add_reduce 1 2 7 < 7 \<and>
   (\<exists>r. powmod_loop 1 3 5 7 = Some r \<and> r < 7) \<and>
   length (bigint_set_u32 7) = WORDS_COUNT \<and> 1 < bigint_val (bigint_set_u32 7) \<and>
   bigint_val (bigint_set_u32 7) \<le> 2 ^ 511 \<and>
   bigint_val (bigint_mul (bigint_set_u32 3) (bigint_set_u32 5)) < 2 ^ (32 * WORDS_COUNT - 1) \<and>
   (\<exists>c. bigint_mod_mul (bigint_set_u32 3) (bigint_set_u32 5) (bigint_set_u32 7) = Some c \<and>
        bigint_val c < bigint_val (bigint_set_u32 7)) \<and>
   length (bigint_set_u32 3) = WORDS_COUNT \<and> length (bigint_set_u32 5) = WORDS_COUNT \<and>
   bigint_val (bigint_set_u32 3) < 2 ^ 511 \<and>
   (\<exists>c. bigint_mod_exp (bigint_set_u32 3) (bigint_set_u32 5) (bigint_set_u32 7) = Some c \<and>
        bigint_val c < bigint_val (bigint_set_u32 7))"
proof -
  note inst = modular_results_are_residues[where m = 7 and a = 3 and b = 5 and x = 3
      and e = 5 and res = 1 and y = 2 and N = "bigint_set_u32 7" and A = "bigint_set_u32 3"
      and B = "bigint_set_u32 5" and E = "bigint_set_u32 5"]
  have p: "bigint_val (bigint_mul (bigint_set_u32 3) (bigint_set_u32 5)) = 15"
    by (simp add: bigint_mul_val WORDS_COUNT_def)
  have pl: "bigint_val (bigint_mul (bigint_set_u32 3) (bigint_set_u32 5)) < 2 ^ (32 * WORDS_COUNT - 1)"
    unfolding p by (simp add: WORDS_COUNT_def)
  have h: "(7 :: ull) \<noteq> 0" "(1 :: ull) < 7" "(2 :: ull) < 7"
    "length (bigint_set_u32 7) = WORDS_COUNT" "1 < bigint_val (bigint_set_u32 7)"
    "bigint_val (bigint_set_u32 7) \<le> 2 ^ 511"
    "length (bigint_set_u32 3) = WORDS_COUNT" "length (bigint_set_u32 5) = WORDS_COUNT"
    "bigint_val (bigint_set_u32 3) < 2 ^ 511" "0 < bigint_val (bigint_set_u32 7)"
    by simp_all
  from inst h pl show ?thesis by blast
qed

section \<open>The prime search\<close>

text \<open>
  The search reads the wall clock and may reseed the random source from it. The C
  library's \<open>srand\<close> and \<open>time\<close> are not part of the repository: the library's
  generator is the function \<open>seq\<close> that gives, for a seed, the sequence of values
  that \<open>rand()\<close> returns after \<open>srand\<close> was called with that seed, and the clock is the
  sequence \<open>clock\<close> of the values that the successive calls of \<open>time(NULL)\<close> return,
  \<open>tick\<close> counting the calls made so far.
\<close>

definition srand :: "(u32 \<Rightarrow> nat \<Rightarrow> u32) \<Rightarrow> u32 \<Rightarrow> prng" where
  "srand seq s = \<lparr>outputs = seq s, pos = 0\<rparr>"

definition INT_MAX :: int where
  "INT_MAX = 2147483647"




text \<open>
  One round of the loop of \<open>generate_1024bit_prime\<close>, after the increment of
  \<open>attempts\<close>. Every 100th round reads the clock for the progress display; every
  1000th round that ends with a rejected candidate reseeds the random source from the
  clock.
\<close>

definition attempt_1024 ::
  "(u32 \<Rightarrow> nat \<Rightarrow> u32) \<Rightarrow> (nat \<Rightarrow> int) \<Rightarrow> nat \<Rightarrow> int \<Rightarrow> prng \<Rightarrow>
     ((bigint1024 \<times> int) + (nat \<times> prng)) option" where
  "attempt_1024 seq clock tick attempts g =
    (let tick1 = (if attempts mod 100 = 0 then tick + 1 else tick);
         (candidate, g1) = bigint_rand_odd_1024 g
     in if list_ex (bigint_divisible_by_small_prime candidate) small_primes_1024
        then Some (Inr (tick1, g1))
        else do {
          (r, g2) \<leftarrow> is_probable_prime_1024 candidate 10 g1;
          if r \<noteq> 0 then Some (Inl (candidate, attempts))
          else if attempts mod 1000 = 0
            then Some (Inr (tick1 + 1,
                   srand seq (word_of_int (clock tick1) + word_of_int attempts)))
            else Some (Inr (tick1, g2))
        })"

partial_function (option) search_1024 ::
  "(u32 \<Rightarrow> nat \<Rightarrow> u32) \<Rightarrow> (nat \<Rightarrow> int) \<Rightarrow> nat \<Rightarrow> int \<Rightarrow> prng \<Rightarrow> (bigint1024 \<times> int) option" where
  "search_1024 seq clock tick attempts g =
    (if attempts = INT_MAX then None
     else
       attempt_1024 seq clock tick (attempts + 1) g \<bind>
         (\<lambda>outcome. case outcome of
            Inl found \<Rightarrow> Some found
          | Inr (tick', g') \<Rightarrow> search_1024 seq clock tick' (attempts + 1) g'))"

definition generate_1024bit_prime ::
  "(u32 \<Rightarrow> nat \<Rightarrow> u32) \<Rightarrow> (nat \<Rightarrow> int) \<Rightarrow> prng \<Rightarrow> (bigint1024 \<times> int) option" where
  "generate_1024bit_prime seq clock g = search_1024 seq clock 1 0 g"

declare search_1024.simps [code]

subsection \<open>Where the search does not depend on the clock\<close>






subsection \<open>Runs of the search on given random sources\<close>








































section \<open>A prime on which the native-width witness test fails\<close>

subsection \<open>Primes and Proth's criterion\<close>

text \<open>
  A number is prime when it is greater than 1 and has no divisors but 1 and itself.
\<close>

definition is_prime :: "nat \<Rightarrow> bool" where
  "is_prime p = (1 < p \<and> {d. d dvd p} = {1, p})"

lemma is_prime_divisor: "is_prime p \<Longrightarrow> d dvd p \<Longrightarrow> d = 1 \<or> d = p"
  by (auto simp: is_prime_def)

lemma is_prime_gt_1: "is_prime p \<Longrightarrow> 1 < p"
  by (simp add: is_prime_def)

lemma is_primeI:
  assumes "1 < p" and "\<And>d. d dvd p \<Longrightarrow> d = 1 \<or> d = p"
  shows "is_prime p"
  using assms by (auto simp: is_prime_def)

lemma prime_factor_exists: "1 < n \<Longrightarrow> \<exists>q. is_prime q \<and> q dvd n"
proof (induction n rule: less_induct)
  case (less n)
  show ?case
  proof (cases "is_prime n")
    case True
    then show ?thesis by (intro exI[of _ n]) simp
  next
    case False
    with less.prems obtain d where d: "d dvd n" "d \<noteq> 1" "d \<noteq> n"
      by (auto simp: is_prime_def)
    from d(1) less.prems have "d \<le> n" by (intro dvd_imp_le) simp_all
    with d(3) have dn: "d < n" by simp
    have "d \<noteq> 0"
    proof
      assume "d = 0"
      with d(1) have "n = 0" by simp
      with less.prems show False by simp
    qed
    with d(2) have "1 < d" by simp
    from less.IH[OF dn this] obtain q where "is_prime q" "q dvd d" by blast
    with d(1) show ?thesis by (blast intro: dvd_trans)
  qed
qed

lemma is_prime_coprime:
  assumes "is_prime p" and "\<not> p dvd a"
  shows "coprime p a"
proof (rule coprimeI)
  fix c assume c: "c dvd p" "c dvd a"
  from is_prime_divisor[OF assms(1) c(1)] show "is_unit c"
  proof
    assume "c = 1" then show ?thesis by simp
  next
    assume "c = p" with c(2) assms(2) show ?thesis by simp
  qed
qed

lemma is_prime_dvd_mult:
  assumes "is_prime p" and "p dvd a * b"
  shows "p dvd a \<or> p dvd b"
proof (cases "p dvd a")
  case True
  then show ?thesis by simp
next
  case False
  from is_prime_coprime[OF assms(1) False] assms(2) have "p dvd b"
    by (simp add: coprime_dvd_mult_right_iff)
  then show ?thesis by simp
qed

lemma is_prime_dvd_power:
  assumes "is_prime p" and "p dvd a ^ k"
  shows "p dvd a"
  using assms(2)
proof (induction k)
  case 0
  with is_prime_gt_1[OF assms(1)] show ?case by simp
next
  case (Suc k)
  then have "p dvd a * a ^ k" by simp
  from is_prime_dvd_mult[OF assms(1) this] Suc.IH show ?case by blast
qed

text \<open>Fermat's little theorem, by the binomial theorem.\<close>

lemma is_prime_dvd_choose:
  assumes "is_prime p" and "0 < i" and "i < p"
  shows "p dvd (p choose i)"
proof -
  obtain j where i: "i = Suc j" using assms(2) by (cases i) simp_all
  obtain r where p: "p = Suc r" using is_prime_gt_1[OF assms(1)] by (cases p) simp_all
  have "i * (p choose i) = p * (r choose j)"
    unfolding i p by (rule Suc_times_binomial)
  then have "p dvd i * (p choose i)" by simp
  moreover have "\<not> p dvd i" using assms(2,3) by (auto dest: dvd_imp_le)
  ultimately show ?thesis using is_prime_dvd_mult[OF assms(1)] by blast
qed

lemma fermat_power:
  assumes "is_prime p"
  shows "(a ^ p) mod p = a mod p"
proof (induction a)
  case 0
  from is_prime_gt_1[OF assms] show ?case by (simp add: zero_power)
next
  case (Suc a)
  have p0: "0 < p" using is_prime_gt_1[OF assms] by simp
  have "(a + 1) ^ p = (\<Sum>i\<le>p. (p choose i) * a ^ i * 1 ^ (p - i))"
    using binomial_ring[of a 1 p] by simp
  also have "\<dots> = (\<Sum>i\<le>p. (p choose i) * a ^ i)" by simp
  also have "{..p} = insert 0 (insert p {0<..<p})" using p0 by auto
  also have "(\<Sum>i\<in>insert 0 (insert p {0<..<p}). (p choose i) * a ^ i) =
      1 + (a ^ p + (\<Sum>i\<in>{0<..<p}. (p choose i) * a ^ i))"
    using p0 by simp
  finally have e: "(a + 1) ^ p = 1 + (a ^ p + (\<Sum>i\<in>{0<..<p}. (p choose i) * a ^ i))" .
  have "p dvd (\<Sum>i\<in>{0<..<p}. (p choose i) * a ^ i)"
  proof (rule dvd_sum)
    fix i assume "i \<in> {0<..<p}"
    then have "p dvd (p choose i)" using is_prime_dvd_choose[OF assms, of i] by simp
    then show "p dvd (p choose i) * a ^ i" by simp
  qed
  then obtain t where t: "(\<Sum>i\<in>{0<..<p}. (p choose i) * a ^ i) = p * t"
    by (auto simp: dvd_def)
  have "(1 + (a ^ p + (\<Sum>i\<in>{0<..<p}. (p choose i) * a ^ i))) mod p = (1 + a ^ p) mod p"
    unfolding t by (simp only: add.assoc[symmetric] mod_mult_self2)
  also have "\<dots> = (1 + a ^ p mod p) mod p" by (rule mod_add_right_eq[symmetric])
  also have "\<dots> = (1 + a mod p) mod p" by (simp only: Suc.IH)
  also have "\<dots> = (1 + a) mod p" by (rule mod_add_right_eq)
  finally show ?case unfolding e[symmetric] by simp
qed

lemma fermat_little:
  assumes "is_prime p" and "\<not> p dvd a"
  shows "(a ^ (p - 1)) mod p = 1"
proof -
  have p1: "1 < p" by (rule is_prime_gt_1[OF assms(1)])
  define x where "x = a ^ (p - 1)"
  have ap: "a ^ p = a * x"
    using p1 by (cases p) (simp_all add: x_def)
  have "int ((a * x) mod p) = int (a mod p)"
    using fermat_power[OF assms(1), of a] by (simp only: ap)
  then have "(int a * int x) mod int p = int a mod int p"
    by (simp only: zmod_int of_nat_mult)
  then have "int p dvd int a * int x - int a"
    by (simp only: mod_eq_dvd_iff)
  moreover have "int a * int x - int a = int a * (int x - 1)"
    by (simp add: algebra_simps)
  ultimately have "int p dvd int a * (int x - 1)" by simp
  moreover have "coprime (int p) (int a)"
    using is_prime_coprime[OF assms] by simp
  ultimately have "int p dvd int x - 1"
    by (simp only: coprime_dvd_mult_right_iff)
  then have "int x mod int p = 1 mod int p"
    by (simp only: mod_eq_dvd_iff)
  then have "int (x mod p) = 1"
    using p1 by (simp add: zmod_int)
  then show ?thesis unfolding x_def by simp
qed

text \<open>The exponents that send \<open>b\<close> to 1 are closed under the greatest common divisor.\<close>

lemma power_gcd_is_one:
  fixes b q :: nat
  assumes "1 < q" and "(b ^ x) mod q = 1" and "(b ^ y) mod q = 1"
  shows "(b ^ gcd x y) mod q = 1"
proof (cases "x = 0")
  case True
  with assms(3) show ?thesis by simp
next
  case False
  from bezout_nat[OF False, of y] obtain u v where uv: "x * u = y * v + gcd x y" by blast
  have "(b ^ (x * u)) mod q = ((b ^ x) mod q) ^ u mod q"
    by (simp add: power_mult power_mod)
  also have "\<dots> = 1" using assms(1,2) by simp
  finally have l: "(b ^ (x * u)) mod q = 1" .
  have "(b ^ (y * v + gcd x y)) mod q = (((b ^ y) mod q) ^ v mod q * (b ^ gcd x y mod q)) mod q"
    by (simp add: power_add power_mult power_mod mod_mult_eq)
  also have "\<dots> = (b ^ gcd x y) mod q" using assms(1,3) by simp
  finally show ?thesis using l uv by simp
qed

lemma dvd_power_of_two:
  fixes x :: nat
  shows "x dvd 2 ^ m \<Longrightarrow> \<exists>j\<le>m. x = 2 ^ j"
proof (induction m arbitrary: x)
  case 0
  then show ?case by simp
next
  case (Suc m)
  show ?case
  proof (cases "even x")
    case True
    then obtain y where y: "x = 2 * y" by (auto elim: evenE)
    with Suc.prems have "y dvd 2 ^ m" by simp
    from Suc.IH[OF this] obtain j where "j \<le> m" "y = 2 ^ j" by blast
    with y show ?thesis by (intro exI[of _ "Suc j"]) simp
  next
    case False
    then have "coprime x 2" by (simp add: coprime_right_2_iff_odd)
    with Suc.prems have "x dvd 2 ^ m"
      by (simp add: coprime_dvd_mult_right_iff)
    from Suc.IH[OF this] obtain j where "j \<le> m" "x = 2 ^ j" by blast
    then show ?thesis by (intro exI[of _ j]) simp
  qed
qed

text \<open>
  Proth's criterion: every prime divisor of \<open>n = k * 2 ^ m + 1\<close> is congruent to 1
  modulo \<open>2 ^ m\<close> when some \<open>a\<close> has \<open>a ^ ((n - 1) div 2) = - 1\<close> modulo \<open>n\<close>.
\<close>

lemma proth_divisor:
  assumes q: "is_prime q" "q dvd n" and n: "n = k * 2 ^ m + 1" and m: "0 < m"
    and a: "n dvd a ^ (k * 2 ^ (m - 1)) + 1"
  shows "2 ^ m dvd q - 1"
proof -
  have q1: "1 < q" by (rule is_prime_gt_1[OF q(1)])
  define b where "b = a ^ k"
  have bm: "b ^ (2 ^ (m - 1)) = a ^ (k * 2 ^ (m - 1))"
    by (simp add: b_def power_mult)
  from a q(2) have minus: "q dvd b ^ (2 ^ (m - 1)) + 1"
    unfolding bm by (rule dvd_trans[rotated])
  have odd_n: "odd n" using n m by (cases m) simp_all
  have q2: "q \<noteq> 2" using q(2) odd_n by auto
  have nd: "\<not> q dvd a"
  proof
    assume "q dvd a"
    then have "q dvd a ^ (k * 2 ^ (m - 1))"
    proof (cases "k * 2 ^ (m - 1) = 0")
      case True
      then have "k = 0" by simp
      with n have "n = 1" by simp
      with q(2) q1 show ?thesis by simp
    next
      case False
      then have "a dvd a ^ (k * 2 ^ (m - 1))" by (intro dvd_power) simp
      with \<open>q dvd a\<close> show ?thesis by (rule dvd_trans)
    qed
    with minus[unfolded bm]
    have "q dvd (a ^ (k * 2 ^ (m - 1)) + 1) - a ^ (k * 2 ^ (m - 1))"
      by (rule dvd_diff_nat)
    then have "q dvd 1" by simp
    with q1 show False by simp
  qed
  have ndb: "\<not> q dvd b"
    using nd is_prime_dvd_power[OF q(1)] by (auto simp: b_def)
  have sq: "b ^ (2 ^ m) = b ^ (2 ^ (m - 1)) * b ^ (2 ^ (m - 1))"
    using m by (cases m) (simp_all add: power_add[symmetric] mult_2)
  define h where "h = b ^ (2 ^ (m - 1))"
  have one: "(b ^ (2 ^ m)) mod q = 1"
  proof -
    from minus have "int q dvd int (h + 1)"
      unfolding h_def by (simp only: int_dvd_int_iff)
    then have "int q dvd int h + 1" by (simp add: add.commute)
    then have "int q dvd (int h + 1) * (int h - 1)" by simp
    also have "(int h + 1) * (int h - 1) = int (h * h) - 1"
      by (simp add: algebra_simps)
    finally have "int (h * h) mod int q = 1 mod int q"
      by (simp only: mod_eq_dvd_iff)
    then have "int ((h * h) mod q) = 1" using q1 by (simp add: zmod_int)
    then have "(h * h) mod q = 1" by simp
    then show ?thesis unfolding sq h_def .
  qed
  have fer: "(b ^ (q - 1)) mod q = 1" by (rule fermat_little[OF q(1) ndb])
  define g where "g = gcd (2 ^ m) (q - 1)"
  have gone: "(b ^ g) mod q = 1"
    unfolding g_def by (rule power_gcd_is_one[OF q1 one fer])
  have "g dvd 2 ^ m" by (simp add: g_def)
  from dvd_power_of_two[OF this] obtain j where j: "j \<le> m" "g = 2 ^ j" by blast
  have "j = m"
  proof (rule ccontr)
    assume "j \<noteq> m"
    with j(1) have jm: "j \<le> m - 1" by simp
    have "(2::nat) ^ (m - 1) = 2 ^ j * 2 ^ (m - 1 - j)"
      using jm by (simp add: power_add[symmetric])
    then have "h = (b ^ g) ^ (2 ^ (m - 1 - j))"
      unfolding h_def j(2) by (simp only: power_mult)
    then have "h mod q = ((b ^ g) mod q) ^ (2 ^ (m - 1 - j)) mod q"
      by (simp only: power_mod)
    also have "\<dots> = 1" using q1 by (simp only: gone power_one) simp
    finally have h1: "h mod q = 1" .
    have "(h + 1) mod q = (h mod q + 1) mod q"
      by (simp only: mod_add_left_eq)
    also have "\<dots> = 2 mod q" by (simp only: h1 one_add_one)
    finally have "(h + 1) mod q = 2 mod q" .
    moreover from minus have "(h + 1) mod q = 0"
      unfolding h_def by (simp only: dvd_eq_mod_eq_0)
    ultimately have "q dvd 2" by (simp add: dvd_eq_mod_eq_0)
    then have "q \<le> 2" by (rule dvd_imp_le) simp
    with q1 q2 show False by simp
  qed
  with j(2) have "g = 2 ^ m" by simp
  moreover have "g dvd q - 1" unfolding g_def by (rule gcd_dvd2)
  ultimately show ?thesis by simp
qed

lemma proth_criterion:
  assumes n: "n = k * 2 ^ m + 1" and k: "0 < k" "k < 2 ^ m" and m: "0 < m"
    and a: "n dvd a ^ (k * 2 ^ (m - 1)) + 1"
  shows "is_prime n"
proof (rule is_primeI)
  show n1: "1 < n" using n k by simp
  fix d assume d: "d dvd n"
  show "d = 1 \<or> d = n"
  proof (rule ccontr)
    assume c: "\<not> (d = 1 \<or> d = n)"
    from d obtain e where e: "n = d * e" by (auto simp: dvd_def)
    have d0: "d \<noteq> 0"
    proof
      assume "d = 0"
      with e n1 show False by simp
    qed
    have e0: "e \<noteq> 0"
    proof
      assume "e = 0"
      with e n1 show False by simp
    qed
    from c d0 have d1: "1 < d" by simp
    from c e e0 have e1: "1 < e" by (cases "e = 1") auto
    from prime_factor_exists[OF d1] obtain q1 where q1: "is_prime q1" "q1 dvd d" by blast
    from prime_factor_exists[OF e1] obtain q2 where q2: "is_prime q2" "q2 dvd e" by blast
    have "q1 dvd n" using q1(2) d by (rule dvd_trans)
    from proth_divisor[OF q1(1) this n m a] have "2 ^ m dvd q1 - 1" .
    then have "2 ^ m \<le> q1 - 1"
      using is_prime_gt_1[OF q1(1)] by (intro dvd_imp_le) simp_all
    then have b1: "2 ^ m + 1 \<le> q1" using is_prime_gt_1[OF q1(1)] by simp
    have "q2 dvd n" using q2(2) by (simp add: e)
    from proth_divisor[OF q2(1) this n m a] have "2 ^ m dvd q2 - 1" .
    then have "2 ^ m \<le> q2 - 1"
      using is_prime_gt_1[OF q2(1)] by (intro dvd_imp_le) simp_all
    then have b2: "2 ^ m + 1 \<le> q2" using is_prime_gt_1[OF q2(1)] by simp
    have "q1 \<le> d" using q1(2) d0 by (intro dvd_imp_le) simp_all
    moreover have "q2 \<le> e" using q2(2) e0 by (intro dvd_imp_le) simp_all
    ultimately have "q1 * q2 \<le> n" unfolding e by (rule mult_le_mono)
    moreover have "(2 ^ m + 1) * (2 ^ m + 1) \<le> q1 * q2" using b1 b2 by (rule mult_le_mono)
    moreover have "n < (2 ^ m + 1) * (2 ^ m + 1)"
    proof -
      define P where "P = (2::nat) ^ m"
      have P0: "0 < P" by (simp add: P_def)
      from k(2) have "k < P" by (simp add: P_def)
      then have kp: "k * P < P * P" using P0 by simp
      have sq: "(P + 1) * (P + 1) = P * P + 2 * P + 1" by (simp add: algebra_simps)
      from kp have "k * P + 1 < P * P + 2 * P + 1" by linarith
      then have "k * P + 1 < (P + 1) * (P + 1)" by (simp only: sq)
      then show ?thesis unfolding n P_def .
    qed
    ultimately show False by simp
  qed
qed

text \<open>
  Repeated squaring modulo \<open>n\<close>, to evaluate the hypothesis of the criterion.
\<close>

fun square_chain :: "nat \<Rightarrow> int \<Rightarrow> int \<Rightarrow> int" where
  "square_chain 0 x n = x mod n"
| "square_chain (Suc j) x n = square_chain j ((x * x) mod n) n"

lemma square_chain_power: "square_chain j x n = x ^ (2 ^ j) mod n"
proof (induction j arbitrary: x)
  case 0
  then show ?case by simp
next
  case (Suc j)
  have "square_chain (Suc j) x n = ((x * x) mod n) ^ (2 ^ j) mod n"
    by (simp add: Suc.IH)
  also have "\<dots> = (x * x) ^ (2 ^ j) mod n" by (rule power_mod)
  also have "(x * x) ^ (2 ^ j) = x ^ (2 ^ Suc j)"
    by (simp add: power2_eq_square[symmetric] power_mult[symmetric])
  finally show ?case .
qed

lemma proth_certificate:
  assumes n: "n = k * 2 ^ m + 1" and k: "0 < k" "k < 2 ^ m" and m: "0 < m"
    and c: "square_chain (m - 1) (int a ^ k) (int n) = int n - 1"
  shows "is_prime n"
proof (rule proth_criterion[OF n k m])
  define h where "h = a ^ (k * 2 ^ (m - 1))"
  have "int h = (int a ^ k) ^ (2 ^ (m - 1))"
    by (simp add: h_def power_mult)
  then have "int h mod int n = int n - 1"
    using c by (simp only: square_chain_power)
  then have "(int h + 1) mod int n = (int n - 1 + 1) mod int n"
    by (metis mod_add_left_eq)
  then have "(int h + 1) mod int n = 0" by simp
  then have "int n dvd int (h + 1)" by (simp add: dvd_eq_mod_eq_0 add.commute)
  then show "n dvd a ^ (k * 2 ^ (m - 1)) + 1"
    unfolding h_def by (simp only: int_dvd_int_iff)
qed

lemma chain_15564440312192434177:
  "square_chain 58 (5 ^ 27) 15564440312192434177 = 15564440312192434176"
  by code_simp

lemma is_prime_15564440312192434177: "is_prime 15564440312192434177"
proof (rule proth_certificate[where k = 27 and m = 59 and a = 5])
  show "(15564440312192434177 :: nat) = 27 * 2 ^ 59 + 1" by simp
  show "(0 :: nat) < 27" by simp
  show "(27 :: nat) < 2 ^ 59" by simp
  show "(0 :: nat) < 59" by simp
  show "square_chain (59 - 1) (int 5 ^ 27) (int 15564440312192434177) =
      int 15564440312192434177 - 1"
    using chain_15564440312192434177 by simp
qed

lemma witness_15564440312192434177: "miller_rabin_witness 15564440312192434177 2 = Some 0"
  by code_simp

text \<open>
  Claim C1 does not hold of the native-width code. The number
  \<open>15564440312192434177 = 27 * 2 ^ 59 + 1\<close> is an odd prime (by Proth's criterion with
  the base 5), and 2 is a base between 2 and \<open>n - 2\<close>, but \<open>miller_rabin_witness\<close>
  returns "composite" for it: the modulus is above \<open>2 ^ 63\<close>, where the doubling in
  \<open>mulmod\<close> wraps around.
\<close>

theorem witness_test_rejects_a_prime:
  "is_prime (unat (15564440312192434177 :: ull)) \<and>
   odd (unat (15564440312192434177 :: ull)) \<and> 3 \<le> unat (15564440312192434177 :: ull) \<and>
   2 \<le> unat (2 :: ull) \<and> unat (2 :: ull) \<le> unat (15564440312192434177 :: ull) - 2 \<and>
   miller_rabin_witness 15564440312192434177 2 = Some 0"
  using is_prime_15564440312192434177 witness_15564440312192434177 by simp

end
